theory Spec2Isabelle
  imports Main "HOL-Library.Multiset" "HOL-Library.Char_ord" "HOL-Library.List_Lexorder"
begin

section \<open>Python values and outcomes\<close>

text \<open>
  A byte string (\<^verbatim>\<open>bytes\<close>, a slice of an \<^verbatim>\<open>mmap\<close>) is a \<^typ>\<open>string\<close>: a list of
  \<^typ>\<open>char\<close>, each one byte. Python compares byte strings lexicographically by byte value,
  a proper prefix being smaller; this is the order of \<^typ>\<open>string\<close> here (bytes by their
  code, lists lexicographically). Python integers are \<^typ>\<open>int\<close>; the entries of the index
  (unsigned 4-byte integers) and text positions derived from them are \<^typ>\<open>nat\<close>.

  A call either returns a value, raises an exception, or does not return at all.
\<close>

datatype error = IndexError | ValueError | OverflowError | TypeError | RecursionError | SystemExit nat

datatype 'a outcome = Returns 'a | Raises error | Diverges

definition seq :: "'a outcome \<Rightarrow> ('a \<Rightarrow> 'b outcome) \<Rightarrow> 'b outcome" where
  "seq m f = (case m of Returns x \<Rightarrow> f x | Raises e \<Rightarrow> Raises e | Diverges \<Rightarrow> Diverges)"

text \<open>
  Indexing \<^verbatim>\<open>a[i]\<close> of a list, \<^verbatim>\<open>memoryview\<close> or \<^verbatim>\<open>mmap\<close>: a negative index counts
  from the end, an index outside the sequence raises \<^verbatim>\<open>IndexError\<close>.
\<close>

definition getitem :: "'a list \<Rightarrow> int \<Rightarrow> 'a outcome" where
  "getitem a i =
     (let n = int (length a); j = (if i < 0 then i + n else i)
      in if 0 \<le> j \<and> j < n then Returns (a ! nat j) else Raises IndexError)"

definition setitem :: "'a list \<Rightarrow> int \<Rightarrow> 'a \<Rightarrow> 'a list outcome" where
  "setitem a i v =
     (let n = int (length a); j = (if i < 0 then i + n else i)
      in if 0 \<le> j \<and> j < n then Returns (a[nat j := v]) else Raises IndexError)"

text \<open>
  Slicing \<^verbatim>\<open>a[lo:hi]\<close>: negative bounds count from the end, and both bounds are clipped to
  the sequence; a slice never raises.
\<close>

definition clip :: "nat \<Rightarrow> int \<Rightarrow> nat" where
  "clip n i = (if i < 0 then nat (max 0 (i + int n)) else min (nat i) n)"

definition slice :: "'a list \<Rightarrow> int \<Rightarrow> int \<Rightarrow> 'a list" where
  "slice a lo hi = take (clip (length a) hi - clip (length a) lo) (drop (clip (length a) lo) a)"

text \<open>The congruence rule lets recursive definitions see that a continuation of
  \<^const>\<open>seq\<close> runs only after a call that returned.\<close>

lemma seq_cong [fundef_cong]:
  "m = m' \<Longrightarrow> (\<And>x. m' = Returns x \<Longrightarrow> f x = f' x) \<Longrightarrow> seq m f = seq m' f'"
  by (simp add: seq_def split: outcome.splits)

section \<open>sort.py\<close>

text \<open>
  An array (a \<^verbatim>\<open>memoryview\<close> of a mapped file, or a list) is a list; a function that
  changes the array in place returns the array afterwards. Indices, bounds and the cutoff are
  Python integers. The progress logger passed along by the source takes no part in the
  results and is left out.

  The inner function \<^verbatim>\<open>swap(i, j)\<close> of \<^verbatim>\<open>partition\<close>, and the same assignment in
  \<^verbatim>\<open>insertion_sort\<close>: \<^verbatim>\<open>array[i], array[j] = array[j], array[i]\<close> reads \<^verbatim>\<open>array[j]\<close>, then
  \<^verbatim>\<open>array[i]\<close>, and then writes \<^verbatim>\<open>array[i]\<close> and \<^verbatim>\<open>array[j]\<close>.
\<close>

definition swap :: "'a list \<Rightarrow> int \<Rightarrow> int \<Rightarrow> 'a list outcome" where
  "swap array i j =
     seq (getitem array j) (\<lambda>x.
     seq (getitem array i) (\<lambda>y.
     seq (setitem array i x) (\<lambda>array.
     setitem array j y)))"

text \<open>
  \<^verbatim>\<open>insertion_sort(array, key)\<close>. The source uses the key only in the test
  \<^verbatim>\<open>key(array[j]) > key(array[j+1])\<close>; since it is also called with the exact comparator,
  whose comparisons need not return, the model takes this test as its second argument
  \<open>key_gt\<close>. The \<^verbatim>\<open>while\<close> loop evaluates the test before \<^verbatim>\<open>j >= 0\<close>, so it also compares
  at \<^verbatim>\<open>j = -1\<close>, where \<^verbatim>\<open>array[-1]\<close> is the last element. The \<^verbatim>\<open>for\<close> loop runs over
  \<^verbatim>\<open>range(0, len(array))\<close>.
\<close>

function insertion_while :: "'a list \<Rightarrow> ('a \<Rightarrow> 'a \<Rightarrow> bool outcome) \<Rightarrow> int \<Rightarrow> 'a list outcome" where
  "insertion_while array key_gt j =
     seq (getitem array j) (\<lambda>x.
     seq (getitem array (j + 1)) (\<lambda>y.
     seq (key_gt x y) (\<lambda>greater.
     if greater \<and> j \<ge> 0
     then seq (swap array j (j + 1)) (\<lambda>array. insertion_while array key_gt (j - 1))
     else Returns array)))"
  by pat_completeness auto
termination
  by (relation "measure (\<lambda>(array, key_gt, j). nat (j + 1))") auto

declare insertion_while.simps [simp del]

fun insertion_for :: "'a list \<Rightarrow> ('a \<Rightarrow> 'a \<Rightarrow> bool outcome) \<Rightarrow> int list \<Rightarrow> 'a list outcome" where
  "insertion_for array key_gt [] = Returns array"
| "insertion_for array key_gt (i # rest) =
     seq (insertion_while array key_gt (i - 1)) (\<lambda>array. insertion_for array key_gt rest)"

definition insertion_sort :: "'a list \<Rightarrow> ('a \<Rightarrow> 'a \<Rightarrow> bool outcome) \<Rightarrow> 'a list outcome" where
  "insertion_sort array key_gt = insertion_for array key_gt (map int [0..<length array])"

text \<open>The test \<^verbatim>\<open>key(x) > key(y)\<close> for a key function into a linear order, which always
  returns.\<close>

definition key_gt_of :: "('a \<Rightarrow> 'k::linorder) \<Rightarrow> 'a \<Rightarrow> 'a \<Rightarrow> bool outcome" where
  "key_gt_of key x y = Returns (key x > key y)"

text \<open>
  \<^verbatim>\<open>partition(array, lo, hi, key, pivotselector)\<close>. The two inner \<^verbatim>\<open>while\<close> loops are
  \<open>scan_lo\<close> and \<open>scan_hi\<close> (each returns the new value of its pointer), the
  \<^verbatim>\<open>while True\<close> loop is \<open>partition_loop\<close> (it returns the array and \<^verbatim>\<open>hi\<close> at the
  \<^verbatim>\<open>break\<close>). A pivot strategy is a function of the array, the bounds and the key that
  returns an index; \<^verbatim>\<open>random_pivot\<close>, which draws from a random generator, is any such
  function with results in the subrange. The result of \<open>partition_subarray\<close> is the array
  afterwards with the index it returns.
\<close>

function scan_lo :: "'a list \<Rightarrow> ('a \<Rightarrow> 'k::linorder) \<Rightarrow> 'a \<Rightarrow> int \<Rightarrow> int \<Rightarrow> int outcome" where
  "scan_lo array key pivot_value lo hi =
     (if lo \<le> hi
      then seq (getitem array lo) (\<lambda>x.
           if key x < key pivot_value then scan_lo array key pivot_value (lo + 1) hi
           else Returns lo)
      else Returns lo)"
  by pat_completeness auto
termination
  by (relation "measure (\<lambda>(array, key, pivot_value, lo, hi). nat (hi - lo + 1))") auto

declare scan_lo.simps [simp del]

function scan_hi :: "'a list \<Rightarrow> ('a \<Rightarrow> 'k::linorder) \<Rightarrow> 'a \<Rightarrow> int \<Rightarrow> int \<Rightarrow> int outcome" where
  "scan_hi array key pivot_value lo hi =
     (if lo \<le> hi
      then seq (getitem array hi) (\<lambda>x.
           if key x > key pivot_value then scan_hi array key pivot_value lo (hi - 1)
           else Returns hi)
      else Returns hi)"
  by pat_completeness auto
termination
  by (relation "measure (\<lambda>(array, key, pivot_value, lo, hi). nat (hi - lo + 1))") auto

declare scan_hi.simps [simp del]

lemma scan_lo_bounds:
  "scan_lo array key pivot_value lo hi = Returns l \<Longrightarrow> lo \<le> l \<and> l \<le> max lo (hi + 1)"
proof (induction array key pivot_value lo hi rule: scan_lo.induct)
  case (1 array key pivot_value lo hi)
  note s = scan_lo.simps[of array key pivot_value lo hi]
  show ?case
  proof (cases "lo \<le> hi")
    case False with "1.prems" show ?thesis by (simp add: s)
  next
    case True
    with "1.prems" obtain x where x: "getitem array lo = Returns x"
      by (cases "getitem array lo") (auto simp: s seq_def)
    show ?thesis
    proof (cases "key x < key pivot_value")
      case k: True
      with True x "1.prems" have "scan_lo array key pivot_value (lo + 1) hi = Returns l"
        by (simp add: s seq_def)
      from "1.IH"[OF True x k this] True show ?thesis by auto
    next
      case False
      with True x "1.prems" show ?thesis by (simp add: s seq_def)
    qed
  qed
qed

lemma scan_hi_bounds:
  "scan_hi array key pivot_value lo hi = Returns h \<Longrightarrow> h \<le> hi \<and> min hi (lo - 1) \<le> h"
proof (induction array key pivot_value lo hi rule: scan_hi.induct)
  case (1 array key pivot_value lo hi)
  note s = scan_hi.simps[of array key pivot_value lo hi]
  show ?case
  proof (cases "lo \<le> hi")
    case False with "1.prems" show ?thesis by (simp add: s)
  next
    case True
    with "1.prems" obtain x where x: "getitem array hi = Returns x"
      by (cases "getitem array hi") (auto simp: s seq_def)
    show ?thesis
    proof (cases "key x > key pivot_value")
      case k: True
      with True x "1.prems" have "scan_hi array key pivot_value lo (hi - 1) = Returns h"
        by (simp add: s seq_def)
      from "1.IH"[OF True x k this] True show ?thesis by auto
    next
      case False
      with True x "1.prems" show ?thesis by (simp add: s seq_def)
    qed
  qed
qed

function partition_loop ::
  "'a list \<Rightarrow> ('a \<Rightarrow> 'k::linorder) \<Rightarrow> 'a \<Rightarrow> int \<Rightarrow> int \<Rightarrow> ('a list \<times> int) outcome" where
  "partition_loop array key pivot_value lo hi =
     seq (scan_lo array key pivot_value lo hi) (\<lambda>lo.
     seq (scan_hi array key pivot_value lo hi) (\<lambda>hi.
     if lo > hi then Returns (array, hi)
     else seq (swap array lo hi) (\<lambda>array.
          partition_loop array key pivot_value (lo + 1) (hi - 1))))"
  by pat_completeness auto
termination
proof (relation "measure (\<lambda>(array, key, pivot_value, lo, hi). nat (hi - lo + 1))", goal_cases)
  case 1 show ?case by simp
next
  case (2 array key pivot_value lo hi l h array')
  from scan_lo_bounds[OF 2(1)] scan_hi_bounds[OF 2(2)] 2(3) show ?case by auto
qed

declare partition_loop.simps [simp del]

lemma partition_loop_bounds:
  "partition_loop array key pivot_value lo hi = Returns (array', h) \<Longrightarrow>
   min (lo - 1) hi \<le> h \<and> h \<le> hi"
proof (induction array key pivot_value lo hi rule: partition_loop.induct)
  case (1 array key pivot_value lo hi)
  from "1.prems" obtain l where l: "scan_lo array key pivot_value lo hi = Returns l"
    by (subst (asm) partition_loop.simps) (cases "scan_lo array key pivot_value lo hi", auto simp: seq_def)
  from "1.prems" l obtain h' where h': "scan_hi array key pivot_value l hi = Returns h'"
    by (subst (asm) partition_loop.simps) (cases "scan_hi array key pivot_value l hi", auto simp: seq_def)
  note bl = scan_lo_bounds[OF l] and bh = scan_hi_bounds[OF h']
  show ?case
  proof (cases "l > h'")
    case True
    with "1.prems" l h' have "h = h'"
      by (subst (asm) partition_loop.simps) (simp add: seq_def)
    with bl bh True show ?thesis by auto
  next
    case False
    with "1.prems" l h' obtain a2 where a2: "swap array l h' = Returns a2"
      by (subst (asm) partition_loop.simps) (cases "swap array l h'", auto simp: seq_def)
    with "1.prems" l h' False
    have "partition_loop a2 key pivot_value (l + 1) (h' - 1) = Returns (array', h)"
      by (subst (asm) partition_loop.simps) (simp add: seq_def)
    from "1.IH"[OF l h' False a2 this] bl bh False show ?thesis by auto
  qed
qed

definition partition_subarray ::
  "'a list \<Rightarrow> int \<Rightarrow> int \<Rightarrow> ('a \<Rightarrow> 'k::linorder) \<Rightarrow>
   ('a list \<Rightarrow> int \<Rightarrow> int \<Rightarrow> ('a \<Rightarrow> 'k) \<Rightarrow> int outcome) \<Rightarrow> ('a list \<times> int) outcome" where
  "partition_subarray array lo hi key pivotselector =
     seq (pivotselector array lo hi key) (\<lambda>pivot.
     seq (swap array lo pivot) (\<lambda>array.
     let pivot = lo; lo = lo + 1; hi = hi - 1 in
     seq (getitem array pivot) (\<lambda>pivot_value.
     seq (partition_loop array key pivot_value lo hi) (\<lambda>(array, hi).
     seq (swap array pivot hi) (\<lambda>array.
     Returns (array, hi))))))"

lemma seq_ReturnsE:
  assumes "seq m f = Returns y"
  obtains x where "m = Returns x" and "f x = Returns y"
  using assms by (cases m) (auto simp: seq_def)

text \<open>
  \<^verbatim>\<open>builtin_timsort(array, lo, hi, key)\<close>. Python's \<^verbatim>\<open>sorted(xs, key=key)\<close> is a stable sort
  by key, as \<^const>\<open>sort_key\<close> is; the \<^verbatim>\<open>for\<close> loop over \<^verbatim>\<open>enumerate(sorted_array, lo)\<close>
  is \<open>assign_from\<close>.
\<close>

definition builtin_sorted :: "'a list \<Rightarrow> ('a \<Rightarrow> 'k::linorder) \<Rightarrow> 'a list" where
  "builtin_sorted xs key = sort_key key xs"

fun assign_from :: "'a list \<Rightarrow> int \<Rightarrow> 'a list \<Rightarrow> 'a list outcome" where
  "assign_from array i [] = Returns array"
| "assign_from array i (val # rest) =
     seq (setitem array i val) (\<lambda>array. assign_from array (i + 1) rest)"

definition builtin_timsort :: "'a list \<Rightarrow> int \<Rightarrow> int \<Rightarrow> ('a \<Rightarrow> 'k::linorder) \<Rightarrow> 'a list outcome" where
  "builtin_timsort array lo hi key =
     (let sorted_array = builtin_sorted (slice array lo hi) key
      in assign_from array lo sorted_array)"

text \<open>
  \<^verbatim>\<open>quicksort_subarray\<close> and \<^verbatim>\<open>quicksort\<close>. \<^verbatim>\<open>quicksort_subarray\<close> is the one recursive
  function of the program: every level of its recursion takes a frame of Python's call
  stack, and Python raises \<^verbatim>\<open>RecursionError\<close> when the depth of the stack exceeds the
  recursion limit. The limit is 1000 unless \<^verbatim>\<open>sys.setrecursionlimit\<close> changes it, which
  \<^verbatim>\<open>build_index.py\<close> never does and \<^verbatim>\<open>main\<close> of \<^verbatim>\<open>sort.py\<close> does only under
  \<^verbatim>\<open>--recursion-limit\<close>. The model takes the room left on the stack as a parameter:
  \<open>room\<close> is the number of nested calls of \<^verbatim>\<open>quicksort_subarray\<close> that the recursion limit
  still allows, each with the calls that it makes itself (the logger, \<^verbatim>\<open>partition\<close> with the
  pivot strategy and the key, \<^verbatim>\<open>builtin_timsort\<close>). The frames of the callers take their part
  of the limit, so \<open>room\<close> is less than the limit: in a build, and in a run of \<^verbatim>\<open>sort.py\<close>
  without \<^verbatim>\<open>--recursion-limit\<close>, it is less than \<open>default_recursion_limit\<close>. A call for
  which no room is left raises \<^verbatim>\<open>RecursionError\<close> before it changes the array.

  The array is changed in place, so it keeps what the calls have done to it when the
  exception leaves the sort. A run of quicksort therefore ends in one of four ways:
  it returns (\<open>Finishes\<close>, with the array afterwards and the subranges \<^verbatim>\<open>(lo, hi)\<close> on which
  \<^verbatim>\<open>builtin_timsort\<close> was called, in the order of the calls); the recursion is deeper than
  the room (\<open>TooDeep\<close>, \<^verbatim>\<open>RecursionError\<close>, with the array as it stands then); a callee
  raises another exception (\<open>Fails\<close>); or a callee does not return (\<open>Hangs\<close>).
\<close>

definition default_recursion_limit :: nat where
  "default_recursion_limit = 1000"

datatype 'a quicksort_outcome =
    Finishes "'a list" "(int \<times> int) list"
  | TooDeep "'a list"
  | Fails error
  | Hangs

text \<open>A callee of \<^verbatim>\<open>quicksort_subarray\<close>, and then the rest of the body; a recursive call,
  and then the rest of the body.\<close>

definition after :: "'b outcome \<Rightarrow> ('b \<Rightarrow> 'a quicksort_outcome) \<Rightarrow> 'a quicksort_outcome" where
  "after m f = (case m of Returns x \<Rightarrow> f x | Raises e \<Rightarrow> Fails e | Diverges \<Rightarrow> Hangs)"

definition and_then ::
  "'a quicksort_outcome \<Rightarrow> ('a list \<Rightarrow> (int \<times> int) list \<Rightarrow> 'a quicksort_outcome) \<Rightarrow> 'a quicksort_outcome" where
  "and_then r f =
     (case r of Finishes array calls \<Rightarrow> f array calls | TooDeep array \<Rightarrow> TooDeep array
      | Fails e \<Rightarrow> Fails e | Hangs \<Rightarrow> Hangs)"

lemma after_cong [fundef_cong]:
  "m = m' \<Longrightarrow> (\<And>x. m' = Returns x \<Longrightarrow> f x = f' x) \<Longrightarrow> after m f = after m' f'"
  by (simp add: after_def split: outcome.splits)

lemma and_then_cong [fundef_cong]:
  "r = r' \<Longrightarrow> (\<And>array calls. r' = Finishes array calls \<Longrightarrow> f array calls = f' array calls) \<Longrightarrow>
   and_then r f = and_then r' f'"
  by (simp add: and_then_def split: quicksort_outcome.splits)

function quicksort_subarray ::
  "'a list \<Rightarrow> int \<Rightarrow> int \<Rightarrow> ('a \<Rightarrow> 'k::linorder) \<Rightarrow>
   ('a list \<Rightarrow> int \<Rightarrow> int \<Rightarrow> ('a \<Rightarrow> 'k) \<Rightarrow> int outcome) \<Rightarrow> int \<Rightarrow> nat \<Rightarrow>
   'a quicksort_outcome" where
  "quicksort_subarray array lo hi key pivotselector cutoff room =
     (if room = 0 then TooDeep array
      else let size = hi - lo in
      if size = 0 then Finishes array []
      else if cutoff \<ge> size
      then after (builtin_timsort array lo hi key) (\<lambda>array. Finishes array [(lo, hi)])
      else after (partition_subarray array lo hi key pivotselector) (\<lambda>(array, pivot).
           and_then (quicksort_subarray array lo pivot key pivotselector cutoff (room - 1)) (\<lambda>array calls1.
           and_then (quicksort_subarray array (pivot + 1) hi key pivotselector cutoff (room - 1)) (\<lambda>array calls2.
           Finishes array (calls1 @ calls2)))))"
  by pat_completeness auto
termination
  by (relation "measure (\<lambda>(array, lo, hi, key, pivotselector, cutoff, room). room)") auto

declare quicksort_subarray.simps [simp del]

definition quicksort ::
  "'a list \<Rightarrow> ('a \<Rightarrow> 'k::linorder) \<Rightarrow>
   ('a list \<Rightarrow> int \<Rightarrow> int \<Rightarrow> ('a \<Rightarrow> 'k) \<Rightarrow> int outcome) \<Rightarrow> int \<Rightarrow> nat \<Rightarrow>
   'a quicksort_outcome" where
  "quicksort array key pivotselector cutoff room =
     quicksort_subarray array 0 (int (length array)) key pivotselector cutoff room"

text \<open>An exception that leaves quicksort, as its caller sees it.\<close>

definition propagate :: "'a quicksort_outcome \<Rightarrow> ('a list \<times> (int \<times> int) list) outcome" where
  "propagate r =
     (case r of Finishes array calls \<Rightarrow> Returns (array, calls) | TooDeep array \<Rightarrow> Raises RecursionError
      | Fails e \<Rightarrow> Raises e | Hangs \<Rightarrow> Diverges)"

text \<open>
  The pivot strategies \<^verbatim>\<open>take_first_pivot\<close> and \<^verbatim>\<open>median_of_three\<close>. Where none of its three
  tests holds, \<^verbatim>\<open>median_of_three\<close> returns \<^verbatim>\<open>None\<close>, with which the \<^verbatim>\<open>swap\<close> of
  \<^verbatim>\<open>partition\<close> raises \<^verbatim>\<open>TypeError\<close>.
\<close>

definition take_first_pivot :: "'a list \<Rightarrow> int \<Rightarrow> int \<Rightarrow> ('a \<Rightarrow> 'k::linorder) \<Rightarrow> int outcome" where
  "take_first_pivot array lo hi key = Returns lo"

definition median_of_three :: "'a list \<Rightarrow> int \<Rightarrow> int \<Rightarrow> ('a \<Rightarrow> 'k::linorder) \<Rightarrow> int outcome" where
  "median_of_three array lo hi key =
     seq (getitem array lo) (\<lambda>x. let lowkey = key x in
     seq (getitem array (hi - 1)) (\<lambda>y. let highkey = key y in
     seq (getitem array ((hi - 1 + lo) div 2)) (\<lambda>z. let mediankey = key z in
     if lowkey \<ge> highkey \<and> lowkey \<le> mediankey \<or> lowkey \<le> highkey \<and> lowkey \<ge> mediankey
     then Returns lo
     else if mediankey \<ge> highkey \<and> mediankey \<le> lowkey \<or> mediankey \<le> highkey \<and> mediankey \<ge> lowkey
     then Returns ((lo + hi - 1) div 2)
     else if highkey \<ge> lowkey \<and> highkey \<le> mediankey \<or> highkey \<le> lowkey \<and> highkey \<ge> mediankey
     then Returns (hi - 1)
     else Raises TypeError)))"

section \<open>build\_index.py: the sort keys\<close>

definition COMPARE_BUFFER_SIZE :: int where
  "COMPARE_BUFFER_SIZE = 100"

text \<open>\<^verbatim>\<open>take_prefix(text)\<close>: the key of a position is the slice of at most 100 bytes there.\<close>

definition take_prefix :: "string \<Rightarrow> nat \<Rightarrow> string" where
  "take_prefix text pos = slice text (int pos) (int pos + COMPARE_BUFFER_SIZE)"

text \<open>
  \<^verbatim>\<open>exact_compare(text)\<close> wraps the three-way comparison \<^verbatim>\<open>key(pos1, pos2)\<close> with
  \<^verbatim>\<open>cmp_to_key\<close>. The comparison loops \<^verbatim>\<open>while True\<close> over successive 100-byte slices and
  leaves the loop only at two slices that differ; where it never does, the model's value is
  \<^const>\<open>None\<close>.
\<close>

partial_function (option) exact_compare_loop :: "string \<Rightarrow> int \<Rightarrow> int \<Rightarrow> int option" where
  "exact_compare_loop text pos1 pos2 =
     (let bytes1 = slice text pos1 (pos1 + COMPARE_BUFFER_SIZE);
          bytes2 = slice text pos2 (pos2 + COMPARE_BUFFER_SIZE)
      in if bytes1 \<noteq> bytes2 then Some (if bytes1 < bytes2 then - 1 else 1)
         else exact_compare_loop text (pos1 + COMPARE_BUFFER_SIZE) (pos2 + COMPARE_BUFFER_SIZE))"

definition exact_compare_key :: "string \<Rightarrow> nat \<Rightarrow> nat \<Rightarrow> int outcome" where
  "exact_compare_key text pos1 pos2 =
     (if pos1 = pos2 then Returns 0
      else case exact_compare_loop text (int pos1) (int pos2) of
             None \<Rightarrow> Diverges
           | Some r \<Rightarrow> Returns r)"

text \<open>
  \<^verbatim>\<open>cmp_to_key(mycmp)\<close>: the key objects compare by the sign of \<^verbatim>\<open>mycmp\<close>, so
  \<^verbatim>\<open>key(x) < key(y)\<close> is \<^verbatim>\<open>mycmp(x, y) < 0\<close> and \<^verbatim>\<open>key(x) > key(y)\<close> is
  \<^verbatim>\<open>mycmp(x, y) > 0\<close>.
\<close>

definition cmp_lt :: "('a \<Rightarrow> 'a \<Rightarrow> int outcome) \<Rightarrow> 'a \<Rightarrow> 'a \<Rightarrow> bool outcome" where
  "cmp_lt mycmp x y = seq (mycmp x y) (\<lambda>r. Returns (r < 0))"

definition cmp_gt :: "('a \<Rightarrow> 'a \<Rightarrow> int outcome) \<Rightarrow> 'a \<Rightarrow> 'a \<Rightarrow> bool outcome" where
  "cmp_gt mycmp x y = seq (mycmp x y) (\<lambda>r. Returns (r > 0))"

section \<open>util.py: the files\<close>

text \<open>
  \<^verbatim>\<open>DiskBytesArray(path)\<close> and \<^verbatim>\<open>DiskIntArray(path)\<close> open a file and map all of it with
  \<^verbatim>\<open>mmap(fileno, 0)\<close>, which raises \<^verbatim>\<open>ValueError\<close> on an empty file. A text file is the
  string of its bytes; an index file is the list of the 4-byte unsigned integers it holds
  (the builder writes and the array reads them in the same native byte order). Both files
  are taken to exist.
\<close>

definition mmap_whole_file :: "'a list \<Rightarrow> 'a list outcome" where
  "mmap_whole_file contents = (if contents = [] then Raises ValueError else Returns contents)"

definition DiskBytesArray :: "string \<Rightarrow> string outcome" where
  "DiskBytesArray path = mmap_whole_file path"

definition DiskIntArray :: "nat list \<Rightarrow> nat list outcome" where
  "DiskIntArray path = mmap_whole_file path"

text \<open>
  \<^verbatim>\<open>DiskIntArrayBuilder.append(value)\<close> writes \<^verbatim>\<open>value.to_bytes(4, ...)\<close>, which raises
  \<^verbatim>\<open>OverflowError\<close> for a value that does not fit into four bytes.
\<close>

definition builder_append :: "nat list \<Rightarrow> nat \<Rightarrow> nat list outcome" where
  "builder_append file v = (if v < 2 ^ 32 then Returns (file @ [v]) else Raises OverflowError)"

section \<open>build\_index.py: the pipeline\<close>

text \<open>\<^verbatim>\<open>isalnum()\<close> of one byte: an ASCII letter or an ASCII decimal digit.\<close>

definition isalnum :: "char \<Rightarrow> bool" where
  "isalnum c = (CHR ''0'' \<le> c \<and> c \<le> CHR ''9'' \<or> CHR ''A'' \<le> c \<and> c \<le> CHR ''Z''
                \<or> CHR ''a'' \<le> c \<and> c \<le> CHR ''z'')"

text \<open>
  \<^verbatim>\<open>collect_corpus_positions\<close>: the loop over \<^verbatim>\<open>enumerate(text)\<close>, with the bytes still to
  be read, the previous byte (a space at first), the position \<^verbatim>\<open>i\<close> and the index file
  written so far. The function returns the index file it has written.
\<close>

fun collect_loop :: "string \<Rightarrow> char \<Rightarrow> nat \<Rightarrow> nat list \<Rightarrow> nat list outcome" where
  "collect_loop [] previous i index = Returns index"
| "collect_loop (char # rest) previous i index =
     (if isalnum char \<and> \<not> isalnum previous
      then seq (builder_append index i) (\<lambda>index. collect_loop rest char (i + 1) index)
      else collect_loop rest char (i + 1) index)"

definition collect_corpus_positions :: "string \<Rightarrow> nat list outcome" where
  "collect_corpus_positions textfile =
     seq (DiskBytesArray textfile) (\<lambda>text. collect_loop text (CHR '' '') 0 [])"

text \<open>
  \<^verbatim>\<open>sort_suffix_array(textfile, indexfile, cutoff)\<close> calls
  \<^verbatim>\<open>quicksort(suffixarray, take_prefix(text), median_of_three)\<close> without a cutoff, so with
  the default \<^verbatim>\<open>cutoff=0\<close> of \<^verbatim>\<open>quicksort\<close>, and then \<^verbatim>\<open>insertion_sort\<close> with the exact
  comparator. The result is the index file afterwards, with the calls of
  \<^verbatim>\<open>builtin_timsort\<close> that the quicksort made. A \<^verbatim>\<open>RecursionError\<close> of the quicksort is
  caught nowhere and ends the build; \<open>room\<close> is the room that the call stack has for the
  recursion of \<^verbatim>\<open>quicksort_subarray\<close>.
\<close>

definition sort_suffix_array ::
  "string \<Rightarrow> nat list \<Rightarrow> int \<Rightarrow> nat \<Rightarrow> (nat list \<times> (int \<times> int) list) outcome" where
  "sort_suffix_array textfile indexfile cutoff room =
     seq (DiskBytesArray textfile) (\<lambda>text.
     seq (DiskIntArray indexfile) (\<lambda>suffixarray.
     seq (propagate (quicksort suffixarray (take_prefix text) median_of_three 0 room)) (\<lambda>(suffixarray, calls).
     seq (insertion_sort suffixarray (cmp_gt (exact_compare_key text))) (\<lambda>suffixarray.
     Returns (suffixarray, calls)))))"

text \<open>
  \<^verbatim>\<open>test_sortedness\<close>: the loop over \<^verbatim>\<open>enumerate(index[1:], 1)\<close>, with the entries still to
  be read, the position \<^verbatim>\<open>i\<close>, the text position \<^verbatim>\<open>left\<close> and the violations found so far,
  each with its position and the two 20-byte previews of its message; \<^verbatim>\<open>errs\<close> is their
  number (the messages of the first ten are printed). Before the loop the source sets
  \<^verbatim>\<open>left = 0\<close>.
\<close>

fun sortedness_loop ::
  "string \<Rightarrow> nat list \<Rightarrow> nat \<Rightarrow> nat \<Rightarrow> (nat \<times> string \<times> string) list \<Rightarrow>
   (nat \<times> string \<times> string) list outcome" where
  "sortedness_loop text [] i left violations = Returns violations"
| "sortedness_loop text (right # rest) i left violations =
     seq (cmp_lt (exact_compare_key text) left right) (\<lambda>less.
     let violations =
       (if \<not> less
        then violations @ [(i, slice text (int left) (int left + 20), slice text (int right) (int right + 20))]
        else violations)
     in sortedness_loop text rest (i + 1) right violations)"

definition test_sortedness :: "string \<Rightarrow> nat list \<Rightarrow> unit outcome" where
  "test_sortedness textfile indexfile =
     seq (DiskBytesArray textfile) (\<lambda>text.
     seq (DiskIntArray indexfile) (\<lambda>index.
     seq (sortedness_loop text (slice index 1 (int (length index))) 1 0 []) (\<lambda>violations.
     let errs = length violations in
     if errs \<noteq> 0 then Raises (SystemExit errs) else Returns ())))"

definition build_suffix_array ::
  "string \<Rightarrow> int \<Rightarrow> nat \<Rightarrow> (nat list \<times> (int \<times> int) list) outcome" where
  "build_suffix_array textfile cutoff room =
     seq (collect_corpus_positions textfile) (\<lambda>indexfile.
     seq (sort_suffix_array textfile indexfile cutoff room) (\<lambda>(indexfile, calls).
     seq (test_sortedness textfile indexfile) (\<lambda>_.
     Returns (indexfile, calls))))"

section \<open>search\_index.py\<close>

text \<open>
  \<^verbatim>\<open>binary_search_first\<close>: the \<^verbatim>\<open>while high-low>1\<close> loop, then the two final tests. The
  result \<^verbatim>\<open>-1\<close> is the not-found value.
\<close>

function binary_search_loop ::
  "string \<Rightarrow> nat list \<Rightarrow> string \<Rightarrow> int \<Rightarrow> int \<Rightarrow> (int \<times> int) outcome" where
  "binary_search_loop search_key index text low high =
     (if high - low > 1
      then let mid = (low + high) div 2 in
           seq (getitem index mid) (\<lambda>ptr.
           let ptr_key = slice text (int ptr) (int ptr + int (length search_key)) in
           if search_key > ptr_key
           then binary_search_loop search_key index text (mid + 1) high
           else binary_search_loop search_key index text low mid)
      else Returns (low, high))"
  by pat_completeness auto
termination
  by (relation "measure (\<lambda>(search_key, index, text, low, high). nat (high - low))") auto

declare binary_search_loop.simps [simp del]

definition binary_search_first :: "string \<Rightarrow> nat list \<Rightarrow> string \<Rightarrow> int outcome" where
  "binary_search_first search_key index text =
     (let high = int (length index) - 1; low = 0 in
      seq (binary_search_loop search_key index text low high) (\<lambda>(low, high).
      seq (getitem index low) (\<lambda>ptr.
      if search_key = slice text (int ptr) (int ptr + int (length search_key)) then Returns low
      else seq (getitem index high) (\<lambda>ptr.
           if search_key = slice text (int ptr) (int ptr + int (length search_key)) then Returns high
           else Returns (- 1)))))"

section \<open>Vocabulary of the properties\<close>

text \<open>A pivot strategy that returns an index of the subrange it is given.\<close>

definition in_range_pivotselector ::
  "('a list \<Rightarrow> int \<Rightarrow> int \<Rightarrow> ('a \<Rightarrow> 'k::linorder) \<Rightarrow> int outcome) \<Rightarrow> ('a \<Rightarrow> 'k) \<Rightarrow> bool" where
  "in_range_pivotselector pivotselector key =
     (\<forall>a lo hi. 0 \<le> lo \<and> lo < hi \<and> hi \<le> int (length a) \<longrightarrow>
        (\<exists>p. pivotselector a lo hi key = Returns p \<and> lo \<le> p \<and> p < hi))"

text \<open>The test of \<^verbatim>\<open>binary_search_first\<close> at position \<^verbatim>\<open>i\<close> of the index: the text at
  \<^verbatim>\<open>index[i]\<close>, cut to the length of the key, is the key.\<close>

definition matches :: "string \<Rightarrow> nat list \<Rightarrow> string \<Rightarrow> nat \<Rightarrow> bool" where
  "matches search_key index text i =
     (search_key = slice text (int (index ! i)) (int (index ! i) + int (length search_key)))"

text \<open>A word start: an alphanumeric byte at offset 0 or after a byte that is not alphanumeric.\<close>

definition word_start :: "string \<Rightarrow> nat \<Rightarrow> bool" where
  "word_start text i = (isalnum (text ! i) \<and> (i = 0 \<or> \<not> isalnum (text ! (i - 1))))"

section \<open>Running the model on concrete inputs\<close>

lemma seq_weak_cong: "m = m' \<Longrightarrow> seq m f = seq m' f"
  by simp

lemma seq_simps:
  "seq (Returns x) f = f x" "seq (Raises e) f = Raises e" "seq Diverges f = Diverges"
  by (simp_all add: seq_def)

lemma after_weak_cong: "m = m' \<Longrightarrow> after m f = after m' f"
  by simp

lemma and_then_weak_cong: "r = r' \<Longrightarrow> and_then r f = and_then r' f"
  by simp

lemma after_simps:
  "after (Returns x) f = f x" "after (Raises e) f = Fails e" "after Diverges f = Hangs"
  by (simp_all add: after_def)

lemma and_then_simps:
  "and_then (Finishes array calls) f = f array calls" "and_then (TooDeep array) f = TooDeep array"
  "and_then (Fails e) f = Fails e" "and_then Hangs f = Hangs"
  by (simp_all add: and_then_def)

lemma propagate_simps:
  "propagate (Finishes array calls) = Returns (array, calls)"
  "propagate (TooDeep array) = Raises RecursionError"
  "propagate (Fails e) = Raises e" "propagate Hangs = Diverges"
  by (simp_all add: propagate_def)

lemmas run =
  seq_simps after_simps and_then_simps propagate_simps getitem_def setitem_def swap_def slice_def clip_def Let_def
  insertion_while.simps insertion_sort_def key_gt_of_def
  scan_lo.simps scan_hi.simps partition_loop.simps partition_subarray_def
  builtin_sorted_def builtin_timsort_def quicksort_subarray.simps quicksort_def
  take_first_pivot_def median_of_three_def
  COMPARE_BUFFER_SIZE_def take_prefix_def exact_compare_loop.simps exact_compare_key_def
  cmp_lt_def cmp_gt_def
  mmap_whole_file_def DiskBytesArray_def DiskIntArray_def builder_append_def isalnum_def
  collect_corpus_positions_def sort_suffix_array_def test_sortedness_def build_suffix_array_def
  binary_search_loop.simps binary_search_first_def


section \<open>Slices and the order of byte strings\<close>

lemma slice_nat: "slice a (int p) (int p + int n) = take n (drop p a)"
  by (cases "p < length a") (auto simp: slice_def clip_def min_def nat_add_distrib)

lemma take_less_iff:
  fixes xs ys :: "'a::linorder list"
  shows "take k xs \<noteq> take k ys \<Longrightarrow> (take k xs < take k ys) = (xs < ys)"
proof (induction k arbitrary: xs ys)
  case 0 then show ?case by simp
next
  case (Suc k)
  show ?case
  proof (cases xs)
    case Nil with Suc.prems show ?thesis by (cases ys) auto
  next
    case (Cons x xs')
    show ?thesis
    proof (cases ys)
      case Nil with Cons show ?thesis by simp
    next
      case (Cons y ys')
      with \<open>xs = x # xs'\<close> Suc.prems Suc.IH[of xs' ys'] show ?thesis by auto
    qed
  qed
qed

lemma append_less_iff:
  fixes xs ys :: "'a::linorder list"
  shows "(b @ xs < b @ ys) = (xs < ys)"
  by (induction b) auto

lemma take_le_mono:
  fixes xs ys :: "'a::linorder list"
  shows "xs \<le> ys \<Longrightarrow> take k xs \<le> take k ys"
proof (cases "take k xs = take k ys")
  case True
  then show ?thesis by simp
next
  case False
  assume "xs \<le> ys"
  with False have "xs < ys" by (auto simp: le_less)
  with take_less_iff[OF False] show ?thesis by simp
qed

lemma exact_compare_loop_suffix:
  "p1 \<noteq> p2 \<Longrightarrow> p1 \<le> length text \<Longrightarrow> p2 \<le> length text \<Longrightarrow>
   exact_compare_loop text (int p1) (int p2) = Some (if drop p1 text < drop p2 text then - 1 else 1)"
proof (induction "length text - p1" arbitrary: p1 p2 rule: less_induct)
  case less
  let ?b1 = "take 100 (drop p1 text)" and ?b2 = "take 100 (drop p2 text)"
  have s1: "slice text (int p1) (int p1 + 100) = ?b1"
    using slice_nat[of "text" p1 100] by simp
  have s2: "slice text (int p2) (int p2 + 100) = ?b2"
    using slice_nat[of "text" p2 100] by simp
  show ?case
  proof (cases "?b1 = ?b2")
    case False
    then show ?thesis
      using take_less_iff[of 100 "drop p1 text" "drop p2 text"]
      by (subst exact_compare_loop.simps) (simp add: s1 s2 Let_def COMPARE_BUFFER_SIZE_def)
  next
    case True
    then have "length ?b1 = length ?b2" by simp
    with less.prems have len: "p1 + 100 \<le> length text" "p2 + 100 \<le> length text"
      by (auto simp: min_def split: if_splits)
    have d1: "drop p1 text = ?b1 @ drop (p1 + 100) text"
      by (metis add.commute append_take_drop_id drop_drop)
    have d2: "drop p2 text = ?b1 @ drop (p2 + 100) text"
      by (metis True add.commute append_take_drop_id drop_drop)
    have IH: "exact_compare_loop text (int (p1 + 100)) (int (p2 + 100)) =
        Some (if drop (p1 + 100) text < drop (p2 + 100) text then - 1 else 1)"
      using less.prems len by (intro less.hyps) auto
    have cmp: "(drop p1 text < drop p2 text) = (drop (p1 + 100) text < drop (p2 + 100) text)"
      by (subst d1, subst d2) (rule append_less_iff)
    show ?thesis
      using True IH cmp
      by (subst exact_compare_loop.simps) (simp add: s1 s2 Let_def COMPARE_BUFFER_SIZE_def)
  qed
qed

lemma drop_neq: "p1 \<noteq> p2 \<Longrightarrow> p1 \<le> length text \<Longrightarrow> p2 \<le> length text \<Longrightarrow> drop p1 text \<noteq> drop p2 text"
  by (metis diff_diff_cancel length_drop)

text \<open>
  Claim C7. For two byte positions within the text, the exact comparator returns, and its
  result is zero exactly when the positions are equal and negative exactly when the suffix
  at the first position precedes the suffix at the second in the lexicographic order of
  byte strings (in which a suffix that ends while it is a proper prefix of the other comes
  first).
\<close>

theorem exact_compare_correct:
  assumes "p1 < length text" and "p2 < length text"
  shows "\<exists>r. exact_compare_key text p1 p2 = Returns r \<and> (r = 0 \<longleftrightarrow> p1 = p2)
              \<and> (r < 0 \<longleftrightarrow> drop p1 text < drop p2 text)"
  using assms exact_compare_loop_suffix[of p1 p2 "text"]
  by (auto simp: exact_compare_key_def)

theorem exact_compare_correct_witness:
  "(0::nat) < length ''b a'' \<and> (2::nat) < length ''b a'' \<and>
   (\<exists>r. exact_compare_key ''b a'' 0 2 = Returns r \<and> (r = 0 \<longleftrightarrow> (0::nat) = 2)
              \<and> (r < 0 \<longleftrightarrow> drop 0 ''b a'' < drop 2 ''b a''))"
  using exact_compare_correct[of 0 "''b a''" 2] by simp

section \<open>Partition\<close>

lemma getitem_nat: "0 \<le> i \<Longrightarrow> i < int (length a) \<Longrightarrow> getitem a i = Returns (a ! nat i)"
  by (simp add: getitem_def)

lemma setitem_nat: "0 \<le> i \<Longrightarrow> i < int (length a) \<Longrightarrow> setitem a i v = Returns (a[nat i := v])"
  by (simp add: setitem_def)

lemma swap_nat:
  "0 \<le> i \<Longrightarrow> i < int (length a) \<Longrightarrow> 0 \<le> j \<Longrightarrow> j < int (length a) \<Longrightarrow>
   swap a i j = Returns (a[nat i := a ! nat j, nat j := a ! nat i])"
  by (simp add: swap_def getitem_nat setitem_nat seq_def)

lemma mset_swap_nat:
  "i < length a \<Longrightarrow> j < length a \<Longrightarrow> mset (a[i := a ! j, j := a ! i]) = mset a"
  by (simp add: mset_swap)

lemma scan_lo_spec:
  "0 \<le> lo \<Longrightarrow> hi < int (length a) \<Longrightarrow>
   \<exists>l. scan_lo a key pv lo hi = Returns l \<and> lo \<le> l \<and> l \<le> max lo (hi + 1)
     \<and> (\<forall>i. lo \<le> i \<and> i < l \<longrightarrow> key (a ! nat i) < key pv)
     \<and> (l \<le> hi \<longrightarrow> \<not> key (a ! nat l) < key pv)"
proof (induction a key pv lo hi rule: scan_lo.induct)
  case (1 a key pv lo hi)
  note s = scan_lo.simps[of a key pv lo hi]
  show ?case
  proof (cases "lo \<le> hi")
    case False then show ?thesis by (auto simp: s)
  next
    case True
    with "1.prems" have g: "getitem a lo = Returns (a ! nat lo)" by (simp add: getitem_nat)
    show ?thesis
    proof (cases "key (a ! nat lo) < key pv")
      case False with True g show ?thesis by (auto simp: s seq_def)
    next
      case k: True
      from "1.IH"[OF True g k] "1.prems" obtain l where
        l: "scan_lo a key pv (lo + 1) hi = Returns l" "lo + 1 \<le> l" "l \<le> max (lo + 1) (hi + 1)"
           "\<forall>i. lo + 1 \<le> i \<and> i < l \<longrightarrow> key (a ! nat i) < key pv"
           "l \<le> hi \<longrightarrow> \<not> key (a ! nat l) < key pv"
        by auto
      have "\<forall>i. lo \<le> i \<and> i < l \<longrightarrow> key (a ! nat i) < key pv"
      proof (intro allI impI)
        fix i assume "lo \<le> i \<and> i < l"
        then show "key (a ! nat i) < key pv" using k l(4) by (cases "i = lo") auto
      qed
      with True g k l show ?thesis by (simp add: s seq_def)
    qed
  qed
qed

lemma scan_hi_spec:
  "0 \<le> lo \<Longrightarrow> hi < int (length a) \<Longrightarrow>
   \<exists>h. scan_hi a key pv lo hi = Returns h \<and> h \<le> hi \<and> min hi (lo - 1) \<le> h
     \<and> (\<forall>i. h < i \<and> i \<le> hi \<longrightarrow> key (a ! nat i) > key pv)
     \<and> (lo \<le> h \<longrightarrow> \<not> key (a ! nat h) > key pv)"
proof (induction a key pv lo hi rule: scan_hi.induct)
  case (1 a key pv lo hi)
  note s = scan_hi.simps[of a key pv lo hi]
  show ?case
  proof (cases "lo \<le> hi")
    case False then show ?thesis by (auto simp: s)
  next
    case True
    with "1.prems" have g: "getitem a hi = Returns (a ! nat hi)" by (simp add: getitem_nat)
    show ?thesis
    proof (cases "key (a ! nat hi) > key pv")
      case False with True g show ?thesis by (auto simp: s seq_def)
    next
      case k: True
      from "1.IH"[OF True g k] "1.prems" obtain h where
        h: "scan_hi a key pv lo (hi - 1) = Returns h" "h \<le> hi - 1" "min (hi - 1) (lo - 1) \<le> h"
           "\<forall>i. h < i \<and> i \<le> hi - 1 \<longrightarrow> key (a ! nat i) > key pv"
           "lo \<le> h \<longrightarrow> \<not> key (a ! nat h) > key pv"
        by auto
      have "\<forall>i. h < i \<and> i \<le> hi \<longrightarrow> key (a ! nat i) > key pv"
      proof (intro allI impI)
        fix i assume "h < i \<and> i \<le> hi"
        then show "key (a ! nat i) > key pv" using k h(4) by (cases "i = hi") auto
      qed
      with True g k h show ?thesis by (simp add: s seq_def)
    qed
  qed
qed

lemma partition_loop_spec:
  "0 \<le> lo \<Longrightarrow> hi < int (length a) \<Longrightarrow>
   \<exists>a' h. partition_loop a key pv lo hi = Returns (a', h)
     \<and> length a' = length a \<and> mset a' = mset a
     \<and> (\<forall>i. 0 \<le> i \<and> (i < lo \<or> hi < i) \<longrightarrow> a' ! nat i = a ! nat i)
     \<and> (\<forall>i. lo \<le> i \<and> i \<le> h \<longrightarrow> key (a' ! nat i) \<le> key pv)
     \<and> (\<forall>i. h < i \<and> i \<le> hi \<longrightarrow> key pv \<le> key (a' ! nat i))"
proof (induction a key pv lo hi rule: partition_loop.induct)
  case (1 a key pv lo hi)
  from scan_lo_spec[OF "1.prems", of key pv] obtain l where
    l: "scan_lo a key pv lo hi = Returns l" "lo \<le> l" "l \<le> max lo (hi + 1)"
       "\<forall>i. lo \<le> i \<and> i < l \<longrightarrow> key (a ! nat i) < key pv"
       "l \<le> hi \<longrightarrow> \<not> key (a ! nat l) < key pv"
    by auto
  from l(2) "1.prems" have l0: "0 \<le> l" by simp
  from scan_hi_spec[OF l0 "1.prems"(2), of key pv] obtain h where
    h: "scan_hi a key pv l hi = Returns h" "h \<le> hi" "min hi (l - 1) \<le> h"
       "\<forall>i. h < i \<and> i \<le> hi \<longrightarrow> key (a ! nat i) > key pv"
       "l \<le> h \<longrightarrow> \<not> key (a ! nat h) > key pv"
    by auto
  show ?case
  proof (cases "l > h")
    case True
    have eq: "partition_loop a key pv lo hi = Returns (a, h)"
      using l(1) h(1) True by (subst partition_loop.simps) (simp add: seq_def)
    have le: "\<forall>i. lo \<le> i \<and> i \<le> h \<longrightarrow> key (a ! nat i) \<le> key pv"
      using l(4) True by (auto intro: less_imp_le)
    have ge: "\<forall>i. h < i \<and> i \<le> hi \<longrightarrow> key pv \<le> key (a ! nat i)"
      using h(4) by (auto intro: less_imp_le)
    from eq le ge show ?thesis by simp
  next
    case False
    then have lh: "l \<le> h" by simp
    with l0 h(2) "1.prems" have rng: "0 \<le> l" "l < int (length a)" "0 \<le> h" "h < int (length a)"
      by auto
    define a2 where "a2 = a[nat l := a ! nat h, nat h := a ! nat l]"
    have sw: "swap a l h = Returns a2"
      unfolding a2_def using rng by (rule swap_nat)
    have len2: "length a2 = length a" by (simp add: a2_def)
    have ms2: "mset a2 = mset a"
      unfolding a2_def using rng by (intro mset_swap_nat) auto
    have "0 \<le> l + 1" "h - 1 < int (length a2)" using rng len2 by auto
    from "1.IH"[OF l(1) h(1) False sw this] obtain a' r where
      r: "partition_loop a2 key pv (l + 1) (h - 1) = Returns (a', r)"
         "length a' = length a2" "mset a' = mset a2"
         "\<forall>i. 0 \<le> i \<and> (i < l + 1 \<or> h - 1 < i) \<longrightarrow> a' ! nat i = a2 ! nat i"
         "\<forall>i. l + 1 \<le> i \<and> i \<le> r \<longrightarrow> key (a' ! nat i) \<le> key pv"
         "\<forall>i. r < i \<and> i \<le> h - 1 \<longrightarrow> key pv \<le> key (a' ! nat i)"
      by auto
    from partition_loop_bounds[OF r(1)] have rb: "min l (h - 1) \<le> r" "r \<le> h - 1" by auto
    have eq: "partition_loop a key pv lo hi = Returns (a', r)"
      using l(1) h(1) False sw r(1) by (subst partition_loop.simps) (simp add: seq_def)
    have a2_nth: "\<And>i. 0 \<le> i \<Longrightarrow> i < int (length a) \<Longrightarrow>
        a2 ! nat i = (if i = h then a ! nat l else if i = l then a ! nat h else a ! nat i)"
      using rng by (auto simp: a2_def nth_list_update)
    have out: "\<forall>i. 0 \<le> i \<and> (i < lo \<or> hi < i) \<longrightarrow> a' ! nat i = a ! nat i"
    proof (intro allI impI)
      fix i assume i: "0 \<le> i \<and> (i < lo \<or> hi < i)"
      with l(2) h(2) have "a' ! nat i = a2 ! nat i" using r(4) by auto
      also have "a2 ! nat i = a ! nat i"
      proof -
        from i l(2) h(2) lh rng "1.prems" have "i \<noteq> l" "i \<noteq> h" by auto
        with i rng have "nat i \<noteq> nat l" "nat i \<noteq> nat h" by (auto simp: nat_eq_iff)
        then show ?thesis by (simp add: a2_def)
      qed
      finally show "a' ! nat i = a ! nat i" .
    qed
    have le: "\<forall>i. lo \<le> i \<and> i \<le> r \<longrightarrow> key (a' ! nat i) \<le> key pv"
    proof (intro allI impI)
      fix i assume i: "lo \<le> i \<and> i \<le> r"
      with "1.prems" rb h(2) rng have ir: "0 \<le> i" "i < int (length a)" by auto
      show "key (a' ! nat i) \<le> key pv"
      proof (cases "i \<le> l")
        case True
        with ir have "a' ! nat i = a2 ! nat i" using r(4) by auto
        moreover have "key (a2 ! nat i) \<le> key pv"
          using a2_nth[OF ir] True i rb l(4) h(5) lh by (auto simp: not_less intro: less_imp_le)
        ultimately show ?thesis by simp
      next
        case False with i r(5) show ?thesis by auto
      qed
    qed
    have ge: "\<forall>i. r < i \<and> i \<le> hi \<longrightarrow> key pv \<le> key (a' ! nat i)"
    proof (intro allI impI)
      fix i assume i: "r < i \<and> i \<le> hi"
      with "1.prems" rb l0 rng have ir: "0 \<le> i" "i < int (length a)" by auto
      show "key pv \<le> key (a' ! nat i)"
      proof (cases "i \<le> h - 1")
        case True with i r(6) show ?thesis by auto
      next
        case False
        with ir have "a' ! nat i = a2 ! nat i" using r(4) by auto
        moreover have "key pv \<le> key (a2 ! nat i)"
          using a2_nth[OF ir] False i rb l(5) h(4) lh by (auto simp: not_less intro: less_imp_le)
        ultimately show ?thesis by simp
      qed
    qed
    from eq r(2,3) len2 ms2 out le ge show ?thesis by simp
  qed
qed

lemma take_split: "l \<le> q \<Longrightarrow> take q a = take l a @ take (q - l) (drop l a)"
  using take_add[of l "q - l" a] by simp

lemma drop_split: "q \<le> h \<Longrightarrow> drop q a = take (h - q) (drop q a) @ drop h a"
  using append_take_drop_id[of "h - q" "drop q a"] by (simp add: add.commute)

lemma seg_split:
  assumes "l \<le> q" "q < h" "h \<le> length a"
  shows "a = take l a @ take (q - l) (drop l a) @ a ! q # take (h - Suc q) (drop (Suc q) a) @ drop h a"
proof -
  have "a = take q a @ a ! q # drop (Suc q) a"
    using assms by (intro id_take_nth_drop) simp
  also have "take q a = take l a @ take (q - l) (drop l a)"
    using assms by (intro take_split)
  also have "drop (Suc q) a = take (h - Suc q) (drop (Suc q) a) @ drop h a"
    using assms by (intro drop_split) simp
  finally show ?thesis by simp
qed

lemma seg_whole:
  assumes "l \<le> h"
  shows "a = take l a @ take (h - l) (drop l a) @ drop h a"
  using append_take_drop_id[of l a] drop_split[OF assms, of a] by simp

lemma set_seg:
  assumes "y \<in> set (take n (drop l a))" and "l + n \<le> length a"
  obtains i where "l \<le> i" "i < l + n" "y = a ! i"
proof -
  from assms(1) obtain j where j: "j < length (take n (drop l a))" "y = take n (drop l a) ! j"
    by (auto simp: in_set_conv_nth)
  from j(1) assms(2) have jn: "j < n" by simp
  with j(2) assms(2) have "y = a ! (l + j)" by simp
  with jn that[of "l + j"] show ?thesis by simp
qed

lemma partition_subarray_spec:
  assumes lo0: "0 \<le> lo" and lohi: "lo < hi" and hilen: "hi \<le> int (length a)"
    and ps: "pivotselector a lo hi key = Returns pivot" and piv: "lo \<le> pivot" "pivot < hi"
  shows "\<exists>a' p. partition_subarray a lo hi key pivotselector = Returns (a', p)
     \<and> lo \<le> p \<and> p < hi \<and> length a' = length a \<and> mset a' = mset a
     \<and> (\<forall>i. 0 \<le> i \<and> (i < lo \<or> hi \<le> i) \<longrightarrow> a' ! nat i = a ! nat i)
     \<and> (\<forall>i. lo \<le> i \<and> i < p \<longrightarrow> key (a' ! nat i) \<le> key (a' ! nat p))
     \<and> (\<forall>i. p \<le> i \<and> i < hi \<longrightarrow> key (a' ! nat p) \<le> key (a' ! nat i))"
proof -
  define a1 where "a1 = a[nat lo := a ! nat pivot, nat pivot := a ! nat lo]"
  have rng1: "0 \<le> lo" "lo < int (length a)" "0 \<le> pivot" "pivot < int (length a)"
    using assms by auto
  have sw1: "swap a lo pivot = Returns a1"
    unfolding a1_def using rng1 by (rule swap_nat)
  have len1: "length a1 = length a" by (simp add: a1_def)
  have ms1: "mset a1 = mset a"
    unfolding a1_def using rng1 by (intro mset_swap_nat) auto
  have out1: "a1 ! nat i = a ! nat i" if "0 \<le> i" "i < lo \<or> hi \<le> i" for i
  proof -
    from that piv lo0 have "nat i \<noteq> nat lo" "nat i \<noteq> nat pivot" by (auto simp: nat_eq_iff)
    then show ?thesis by (simp add: a1_def)
  qed
  define x where "x = a1 ! nat lo"
  have gx: "getitem a1 lo = Returns x"
    unfolding x_def using rng1 len1 by (intro getitem_nat) auto
  have "0 \<le> lo + 1" "hi - 1 < int (length a1)" using lo0 hilen len1 by auto
  from partition_loop_spec[OF this, of key x] obtain a2 h where
    pl: "partition_loop a1 key x (lo + 1) (hi - 1) = Returns (a2, h)"
      and len2: "length a2 = length a1" and ms2: "mset a2 = mset a1"
      and out2: "\<forall>i. 0 \<le> i \<and> (i < lo + 1 \<or> hi - 1 < i) \<longrightarrow> a2 ! nat i = a1 ! nat i"
      and le2: "\<forall>i. lo + 1 \<le> i \<and> i \<le> h \<longrightarrow> key (a2 ! nat i) \<le> key x"
      and ge2: "\<forall>i. h < i \<and> i \<le> hi - 1 \<longrightarrow> key x \<le> key (a2 ! nat i)"
    by auto
  from partition_loop_bounds[OF pl] lohi have hb: "lo \<le> h" "h \<le> hi - 1" by auto
  define a3 where "a3 = a2[nat lo := a2 ! nat h, nat h := a2 ! nat lo]"
  have rng3: "0 \<le> lo" "lo < int (length a2)" "0 \<le> h" "h < int (length a2)"
    using rng1 hb hilen len1 len2 by auto
  have sw3: "swap a2 lo h = Returns a3"
    unfolding a3_def using rng3 by (rule swap_nat)
  have len3: "length a3 = length a" by (simp add: a3_def len1 len2)
  have ms3: "mset a3 = mset a"
    unfolding a3_def using rng3 ms1 ms2 by (subst mset_swap_nat) auto
  have a2lo: "a2 ! nat lo = x" using out2 lo0 by (auto simp: x_def)
  have a3_nth: "a3 ! nat i = (if i = h then x else if i = lo then a2 ! nat h else a2 ! nat i)"
    if "0 \<le> i" for i
    using that rng3 a2lo by (auto simp: a3_def nth_list_update nat_eq_iff)
  have eq: "partition_subarray a lo hi key pivotselector = Returns (a3, h)"
    by (simp add: partition_subarray_def ps sw1 gx pl sw3 seq_def Let_def)
  have out: "\<forall>i. 0 \<le> i \<and> (i < lo \<or> hi \<le> i) \<longrightarrow> a3 ! nat i = a ! nat i"
  proof (intro allI impI)
    fix i assume i: "0 \<le> i \<and> (i < lo \<or> hi \<le> i)"
    with hb have "a3 ! nat i = a2 ! nat i" by (auto simp: a3_nth)
    also from i have "\<dots> = a1 ! nat i" using out2 by auto
    also from i have "\<dots> = a ! nat i" by (auto intro: out1)
    finally show "a3 ! nat i = a ! nat i" .
  qed
  have a3h: "a3 ! nat h = x" using hb lo0 by (simp add: a3_nth)
  have le: "\<forall>i. lo \<le> i \<and> i < h \<longrightarrow> key (a3 ! nat i) \<le> key (a3 ! nat h)"
  proof (intro allI impI)
    fix i assume i: "lo \<le> i \<and> i < h"
    with lo0 le2 show "key (a3 ! nat i) \<le> key (a3 ! nat h)"
      unfolding a3h by (auto simp: a3_nth)
  qed
  have ge: "\<forall>i. h \<le> i \<and> i < hi \<longrightarrow> key (a3 ! nat h) \<le> key (a3 ! nat i)"
  proof (intro allI impI)
    fix i assume i: "h \<le> i \<and> i < hi"
    with lo0 hb ge2 show "key (a3 ! nat h) \<le> key (a3 ! nat i)"
      unfolding a3h by (auto simp: a3_nth)
  qed
  from eq hb len3 ms3 out le ge show ?thesis by auto
qed

text \<open>The segment of positions [lo, hi) of an array.\<close>

lemma nth_eq_take: "length a' = length a \<Longrightarrow> (\<forall>i<n. a' ! i = a ! i) \<Longrightarrow> take n a' = take n a"
  by (rule nth_equalityI) auto

lemma nth_eq_drop: "length a' = length a \<Longrightarrow> (\<forall>i\<ge>n. a' ! i = a ! i) \<Longrightarrow> drop n a' = drop n a"
  by (rule nth_equalityI) auto

lemma partition_subarray_decomp:
  assumes lo0: "0 \<le> lo" and lohi: "lo < hi" and hilen: "hi \<le> int (length a)"
    and ps: "pivotselector a lo hi key = Returns pivot" and piv: "lo \<le> pivot" "pivot < hi"
  shows "\<exists>L x R. partition_subarray a lo hi key pivotselector =
        Returns (take (nat lo) a @ L @ x # R @ drop (nat hi) a, lo + int (length L))
     \<and> mset (L @ x # R) = mset (take (nat (hi - lo)) (drop (nat lo) a))
     \<and> (\<forall>y \<in> set L. key y \<le> key x) \<and> (\<forall>y \<in> set R. key x \<le> key y)"
proof -
  from partition_subarray_spec[of lo hi a pivotselector key pivot] assms obtain a' p where
    eq: "partition_subarray a lo hi key pivotselector = Returns (a', p)"
    and pb: "lo \<le> p" "p < hi" and len: "length a' = length a" and ms: "mset a' = mset a"
    and out: "\<forall>i. 0 \<le> i \<and> (i < lo \<or> hi \<le> i) \<longrightarrow> a' ! nat i = a ! nat i"
    and le: "\<forall>i. lo \<le> i \<and> i < p \<longrightarrow> key (a' ! nat i) \<le> key (a' ! nat p)"
    and ge: "\<forall>i. p \<le> i \<and> i < hi \<longrightarrow> key (a' ! nat p) \<le> key (a' ! nat i)"
    by blast
  define l h q where "l = nat lo" and "h = nat hi" and "q = nat p"
  have lqh: "l \<le> q" "q < h" "h \<le> length a"
    and ints: "lo = int l" "hi = int h" "p = int q"
    using lo0 pb hilen by (auto simp: l_def h_def q_def)
  define L x R where "L = take (q - l) (drop l a')" and "x = a' ! q"
    and "R = take (h - Suc q) (drop (Suc q) a')"
  have tk: "take l a' = take l a"
  proof (rule nth_eq_take[OF len], intro allI impI)
    fix i assume "i < l" then show "a' ! i = a ! i" using out[rule_format, of "int i"] ints by auto
  qed
  have dr: "drop h a' = drop h a"
  proof (rule nth_eq_drop[OF len], intro allI impI)
    fix i assume "h \<le> i" then show "a' ! i = a ! i" using out[rule_format, of "int i"] ints by auto
  qed
  have h': "h \<le> length a'" using lqh len by simp
  have dec: "a' = take l a @ L @ x # R @ drop h a"
    using seg_split[OF lqh(1,2) h'] unfolding L_def x_def R_def tk dr .
  have lenL: "length L = q - l" using lqh len by (simp add: L_def)
  have "mset a = mset (take l a) + mset (take (h - l) (drop l a)) + mset (drop h a)"
    using seg_whole[of l h a] lqh by (metis mset_append add.assoc less_imp_le order_trans)
  moreover have "mset a' = mset (take l a) + mset (L @ x # R) + mset (drop h a)"
    by (subst dec) simp
  ultimately have msLR: "mset (L @ x # R) = mset (take (h - l) (drop l a))"
    using ms by simp
  have seg: "nat (hi - lo) = h - l" using lqh ints by simp
  have setL: "\<forall>y \<in> set L. key y \<le> key x"
  proof
    fix y assume "y \<in> set L"
    moreover have "l + (q - l) \<le> length a'" using lqh h' by simp
    ultimately obtain i where i: "l \<le> i" "i < l + (q - l)" "y = a' ! i"
      unfolding L_def by (rule set_seg)
    with le[rule_format, of "int i"] lqh ints show "key y \<le> key x" by (simp add: x_def)
  qed
  have setR: "\<forall>y \<in> set R. key x \<le> key y"
  proof
    fix y assume "y \<in> set R"
    moreover have "Suc q + (h - Suc q) \<le> length a'" using lqh h' by simp
    ultimately obtain i where i: "Suc q \<le> i" "i < Suc q + (h - Suc q)" "y = a' ! i"
      unfolding R_def by (rule set_seg)
    with ge[rule_format, of "int i"] lqh ints show "key x \<le> key y" by (simp add: x_def)
  qed
  have "lo + int (length L) = p" using lenL lqh ints by simp
  with eq dec have "partition_subarray a lo hi key pivotselector =
      Returns (take (nat lo) a @ L @ x # R @ drop (nat hi) a, lo + int (length L))"
    by (simp add: l_def h_def)
  moreover from msLR seg have "mset (L @ x # R) = mset (take (nat (hi - lo)) (drop (nat lo) a))"
    by (simp add: l_def)
  ultimately show ?thesis using setL setR by blast
qed

text \<open>
  Claim C8. For a subrange [lo, hi) of the array with lo < hi and a pivot strategy that
  returns an index in [lo, hi), one call of partition returns a position p in [lo, hi);
  afterwards every element at a position in [lo, p) has a key at most the key of the element
  at p, and every element at a position in [p, hi) has a key at least that key.
\<close>

theorem partition_correct:
  assumes "0 \<le> lo" and "lo < hi" and "hi \<le> int (length array)"
    and "pivotselector array lo hi key = Returns pivot" and "lo \<le> pivot" and "pivot < hi"
  shows "\<exists>array' p. partition_subarray array lo hi key pivotselector = Returns (array', p)
     \<and> lo \<le> p \<and> p < hi
     \<and> (\<forall>i. lo \<le> i \<and> i < p \<longrightarrow> key (array' ! nat i) \<le> key (array' ! nat p))
     \<and> (\<forall>i. p \<le> i \<and> i < hi \<longrightarrow> key (array' ! nat p) \<le> key (array' ! nat i))"
  using partition_subarray_spec[of lo hi array pivotselector key pivot] assms by blast

theorem partition_correct_witness:
  "(0::int) \<le> 0 \<and> (0::int) < 3 \<and> 3 \<le> int (length [3, 1, 2::nat])
   \<and> take_first_pivot [3, 1, 2::nat] 0 3 (\<lambda>x. x) = Returns 0
   \<and> (\<exists>array' p. partition_subarray [3, 1, 2::nat] 0 3 (\<lambda>x. x) take_first_pivot = Returns (array', p)
     \<and> 0 \<le> p \<and> p < 3
     \<and> (\<forall>i. 0 \<le> i \<and> i < p \<longrightarrow> array' ! nat i \<le> array' ! nat p)
     \<and> (\<forall>i. p \<le> i \<and> i < 3 \<longrightarrow> array' ! nat p \<le> array' ! nat i))"
  using partition_correct[of 0 3 "[3, 1, 2::nat]" take_first_pivot "\<lambda>x. x" 0]
  by (simp add: take_first_pivot_def)

section \<open>The built-in sort and quicksort\<close>

lemma slice_seg:
  "0 \<le> lo \<Longrightarrow> lo \<le> hi \<Longrightarrow> hi \<le> int (length a) \<Longrightarrow>
   slice a lo hi = take (nat (hi - lo)) (drop (nat lo) a)"
  by (auto simp: slice_def clip_def min_def nat_diff_distrib nat_le_iff)

lemma assign_from_spec:
  "0 \<le> i \<Longrightarrow> nat i + length vs \<le> length a \<Longrightarrow>
   assign_from a i vs = Returns (take (nat i) a @ vs @ drop (nat i + length vs) a)"
proof (induction vs arbitrary: a i)
  case Nil then show ?case by simp
next
  case (Cons v vs)
  from Cons.prems have rng: "0 \<le> i" "i < int (length a)" by auto
  have s: "setitem a i v = Returns (a[nat i := v])" using rng by (rule setitem_nat)
  have n: "nat (i + 1) = Suc (nat i)" using rng by simp
  have "assign_from (a[nat i := v]) (i + 1) vs =
      Returns (take (nat (i + 1)) (a[nat i := v]) @ vs @ drop (nat (i + 1) + length vs) (a[nat i := v]))"
    using Cons.prems by (intro Cons.IH) auto
  moreover have "take (Suc (nat i)) (a[nat i := v]) = take (nat i) a @ [v]"
    using rng by (simp add: take_Suc_conv_app_nth)
  ultimately show ?case using s by (simp add: seq_def n)
qed

lemma builtin_timsort_spec:
  assumes "0 \<le> lo" "lo \<le> hi" "hi \<le> int (length a)"
  shows "builtin_timsort a lo hi key =
     Returns (take (nat lo) a @ sort_key key (take (nat (hi - lo)) (drop (nat lo) a)) @ drop (nat hi) a)"
proof -
  let ?s = "sort_key key (take (nat (hi - lo)) (drop (nat lo) a))"
  have len: "length ?s = nat (hi - lo)" using assms by simp
  have "assign_from a lo ?s = Returns (take (nat lo) a @ ?s @ drop (nat lo + length ?s) a)"
    using assms by (intro assign_from_spec) (auto simp: len)
  moreover have "nat lo + nat (hi - lo) = nat hi" using assms by simp
  ultimately show ?thesis
    using assms by (simp add: builtin_timsort_def builtin_sorted_def slice_seg len del: length_sort)
qed

lemma quicksort_subarray_spec:
  "in_range_pivotselector pivotselector key \<Longrightarrow> 0 \<le> lo \<Longrightarrow> lo \<le> hi \<Longrightarrow> hi \<le> int (length a) \<Longrightarrow>
     \<exists>s. mset s = mset (take (nat (hi - lo)) (drop (nat lo) a))
       \<and> ((\<exists>calls. quicksort_subarray a lo hi key pivotselector cutoff room =
                Finishes (take (nat lo) a @ s @ drop (nat hi) a) calls
              \<and> sorted (map key s))
          \<or> (quicksort_subarray a lo hi key pivotselector cutoff room =
                TooDeep (take (nat lo) a @ s @ drop (nat hi) a)
              \<and> room \<le> nat (hi - lo)))"
proof (induction a lo hi key pivotselector cutoff room rule: quicksort_subarray.induct)
  case (1 a lo hi key pivotselector cutoff room)
  note qs = quicksort_subarray.simps[of a lo hi key pivotselector cutoff room]
  note ps = "1.prems"(1)
  note rng = "1.prems"(2-4)
  define l h where "l = nat lo" and "h = nat hi"
  have lh: "l \<le> h" "h \<le> length a" and ints: "lo = int l" "hi = int h"
    using rng by (auto simp: l_def h_def)
  define A C where "A = take l a" and "C = drop h a"
  have lenA: "length A = l" using lh by (simp add: A_def)
  have seg: "nat (hi - lo) = h - l" using ints by simp
  let ?seg = "take (h - l) (drop l a)"
  have whole: "a = A @ ?seg @ C" unfolding A_def C_def using lh(1) by (rule seg_whole)
  have lenseg: "length ?seg = h - l" using lh by simp
  consider (deep) "room = 0" | (empty) "room \<noteq> 0" "hi - lo = 0"
    | (small) "room \<noteq> 0" "hi - lo \<noteq> 0" "cutoff \<ge> hi - lo"
    | (rec) "room \<noteq> 0" "hi - lo \<noteq> 0" "\<not> cutoff \<ge> hi - lo" by blast
  then show ?case
  proof cases
    case deep
    have eq: "quicksort_subarray a lo hi key pivotselector cutoff room = TooDeep (A @ ?seg @ C)"
      using deep whole by (subst qs) simp
    from eq deep show ?thesis
      unfolding seg l_def[symmetric] h_def[symmetric] A_def[symmetric] C_def[symmetric] by blast
  next
    case empty
    have eq: "quicksort_subarray a lo hi key pivotselector cutoff room = Finishes a []"
      using empty by (subst qs) (simp add: Let_def)
    from empty have "nat hi = nat lo" by simp
    then have fr: "take (nat lo) a @ [] @ drop (nat hi) a = a" by simp
    have "mset [] = mset (take (nat (hi - lo)) (drop (nat lo) a))" using empty by simp
    moreover have "sorted (map key [])" by simp
    ultimately show ?thesis using eq fr by metis
  next
    case small
    have "builtin_timsort a lo hi key = Returns (A @ sort_key key ?seg @ C)"
      using builtin_timsort_spec[OF rng, of key] by (simp add: seg l_def h_def A_def C_def)
    with small have eq: "quicksort_subarray a lo hi key pivotselector cutoff room =
        Finishes (A @ sort_key key ?seg @ C) [(lo, hi)]"
      by (simp add: qs after_def Let_def)
    have "mset (sort_key key ?seg) = mset ?seg" "sorted (map key (sort_key key ?seg))" by simp_all
    with eq show ?thesis
      unfolding seg l_def[symmetric] h_def[symmetric] A_def[symmetric] C_def[symmetric] by blast
  next
    case rec
    with rng have lohi: "lo < hi" by simp
    from ps rng(1) lohi rng(3) obtain pivot where
      pv: "pivotselector a lo hi key = Returns pivot" "lo \<le> pivot" "pivot < hi"
      unfolding in_range_pivotselector_def by blast
    from partition_subarray_decomp[of lo hi a pivotselector key pivot, OF rng(1) lohi rng(3) pv] obtain L x R where
      part: "partition_subarray a lo hi key pivotselector = Returns (A @ L @ x # R @ C, lo + int (length L))"
      and msLR: "mset (L @ x # R) = mset ?seg"
      and leL: "\<forall>y \<in> set L. key y \<le> key x" and geR: "\<forall>y \<in> set R. key x \<le> key y"
      unfolding seg l_def[symmetric] h_def[symmetric] A_def[symmetric] C_def[symmetric] by blast
    define a1 p where "a1 = A @ L @ x # R @ C" and "p = lo + int (length L)"
    have lenLR: "length (L @ x # R) = h - l"
      using msLR lenseg by (metis size_mset)
    then have lens: "length L + Suc (length R) = h - l" by simp
    have lenC: "length C = length a - h" by (simp add: C_def)
    have len1: "length a1 = length a" using lenA lens lenC lh by (simp add: a1_def)
    have np: "nat p = l + length L" by (simp add: p_def ints)
    have unfold: "quicksort_subarray a lo hi key pivotselector cutoff room =
        and_then (quicksort_subarray a1 lo p key pivotselector cutoff (room - 1)) (\<lambda>array calls1.
        and_then (quicksort_subarray array (p + 1) hi key pivotselector cutoff (room - 1)) (\<lambda>array calls2.
        Finishes array (calls1 @ calls2)))"
      using rec part[folded a1_def p_def] by (simp add: qs after_def Let_def)
    \<comment> \<open>the left recursive call\<close>
    have c1: "0 \<le> lo" "lo \<le> p" "p \<le> int (length a1)"
      using rng lens lh len1 by (auto simp: p_def ints)
    have t1: "take (nat lo) a1 = A" using lenA by (simp add: a1_def l_def[symmetric])
    have d1: "drop (nat p) a1 = x # R @ C" using lenA by (simp add: a1_def np)
    have g1: "take (nat (p - lo)) (drop (nat lo) a1) = L"
      using lenA by (simp add: a1_def p_def l_def[symmetric])
    have n1: "nat (p - lo) = length L" by (simp add: p_def)
    note g1' = g1[unfolded n1]
    from "1.IH"(1)[OF rec(1) refl rec(2,3) part[folded a1_def p_def] refl ps c1]
    obtain s1 where ms1: "mset s1 = mset L"
      and q1: "(\<exists>calls1. quicksort_subarray a1 lo p key pivotselector cutoff (room - 1) =
                  Finishes (A @ s1 @ x # R @ C) calls1 \<and> sorted (map key s1))
             \<or> (quicksort_subarray a1 lo p key pivotselector cutoff (room - 1) =
                  TooDeep (A @ s1 @ x # R @ C) \<and> room - 1 \<le> length L)"
      unfolding t1 d1 n1 g1' by blast
    from ms1 have len_s1: "length s1 = length L" by (metis size_mset)
    define a2 where "a2 = A @ s1 @ x # R @ C"
    have len2: "length a2 = length a" using len1 len_s1 by (simp add: a1_def a2_def)
    from q1 show ?thesis
    proof (elim disjE exE conjE)
      assume td: "quicksort_subarray a1 lo p key pivotselector cutoff (room - 1) =
          TooDeep (A @ s1 @ x # R @ C)" and rm: "room - 1 \<le> length L"
      have eq: "quicksort_subarray a lo hi key pivotselector cutoff room = TooDeep (A @ (s1 @ x # R) @ C)"
        using td by (simp add: unfold and_then_def)
      have ms: "mset (s1 @ x # R) = mset ?seg" using ms1 msLR by simp
      have "room \<le> h - l" using rm lens by simp
      with eq ms show ?thesis
        unfolding seg l_def[symmetric] h_def[symmetric] A_def[symmetric] C_def[symmetric] by blast
    next
      fix calls1
      assume q1': "quicksort_subarray a1 lo p key pivotselector cutoff (room - 1) =
          Finishes (A @ s1 @ x # R @ C) calls1" and so1: "sorted (map key s1)"
      \<comment> \<open>the right recursive call\<close>
      have c2: "0 \<le> p + 1" "p + 1 \<le> hi" "hi \<le> int (length a2)"
        using rng lens lh len2 by (auto simp: p_def ints)
      have np1: "nat (p + 1) = l + length s1 + 1" by (simp add: p_def ints len_s1)
      have t2: "take (nat (p + 1)) a2 = A @ s1 @ [x]" using lenA by (simp add: a2_def np1)
      have nh: "h = l + length s1 + 1 + length R" using lens lh len_s1 by simp
      have d2: "drop (nat hi) a2 = C"
        using lenA by (simp add: a2_def h_def[symmetric] nh)
      have nr: "nat (hi - (p + 1)) = length R" using nh by (simp add: p_def ints len_s1)
      have g2: "take (nat (hi - (p + 1))) (drop (nat (p + 1)) a2) = R"
        using lenA by (simp add: a2_def np1 nr)
      note g2' = g2[unfolded nr]
      from "1.IH"(2)[OF rec(1) refl rec(2,3) part[folded a1_def p_def] refl q1'[folded a2_def] ps c2]
      obtain s2 where ms2: "mset s2 = mset R"
        and q2: "(\<exists>calls2. quicksort_subarray a2 (p + 1) hi key pivotselector cutoff (room - 1) =
                    Finishes (A @ (s1 @ x # s2) @ C) calls2 \<and> sorted (map key s2))
               \<or> (quicksort_subarray a2 (p + 1) hi key pivotselector cutoff (room - 1) =
                    TooDeep (A @ (s1 @ x # s2) @ C) \<and> room - 1 \<le> length R)"
        unfolding t2 d2 nr g2' by auto
      have ms: "mset (s1 @ x # s2) = mset ?seg" using ms1 ms2 msLR by simp
      from q2 show ?thesis
      proof (elim disjE exE conjE)
        assume td: "quicksort_subarray a2 (p + 1) hi key pivotselector cutoff (room - 1) =
            TooDeep (A @ (s1 @ x # s2) @ C)" and rm: "room - 1 \<le> length R"
        have eq: "quicksort_subarray a lo hi key pivotselector cutoff room =
            TooDeep (A @ (s1 @ x # s2) @ C)"
          using q1'[folded a2_def] td by (simp add: unfold and_then_def)
        have "room \<le> h - l" using rm lens by simp
        with eq ms show ?thesis
          unfolding seg l_def[symmetric] h_def[symmetric] A_def[symmetric] C_def[symmetric] by blast
      next
        fix calls2
        assume q2': "quicksort_subarray a2 (p + 1) hi key pivotselector cutoff (room - 1) =
            Finishes (A @ (s1 @ x # s2) @ C) calls2" and so2: "sorted (map key s2)"
        have eq: "quicksort_subarray a lo hi key pivotselector cutoff room =
            Finishes (A @ (s1 @ x # s2) @ C) (calls1 @ calls2)"
          using q1'[folded a2_def] q2' by (simp add: unfold and_then_def)
        have set1: "set s1 = set L" using ms1 by (rule mset_eq_setD)
        have set2: "set s2 = set R" using ms2 by (rule mset_eq_setD)
        have so: "sorted (map key (s1 @ x # s2))"
          using so1 so2 leL geR set1 set2 by (fastforce simp: sorted_append)
        from eq ms so show ?thesis
          unfolding seg l_def[symmetric] h_def[symmetric] A_def[symmetric] C_def[symmetric] by blast
      qed
    qed
  qed
qed

section \<open>Insertion sort\<close>

lemma getitem_in_set: "getitem a i = Returns x \<Longrightarrow> x \<in> set a"
  by (auto simp: getitem_def Let_def split: if_splits)

lemma swap_mset: "swap a i j = Returns a' \<Longrightarrow> mset a' = mset a"
proof -
  assume sw: "swap a i j = Returns a'"
  define n where "n = int (length a)"
  define i' j' where "i' = nat (if i < 0 then i + n else i)" and "j' = nat (if j < 0 then j + n else j)"
  from sw obtain x where x: "getitem a j = Returns x"
    unfolding swap_def by (elim seq_ReturnsE)
  from sw x obtain y where y: "getitem a i = Returns y"
    unfolding swap_def by (elim seq_ReturnsE) auto
  from x have j: "j' < length a" "x = a ! j'"
    by (auto simp: getitem_def Let_def j'_def n_def split: if_splits)
  from y have i: "i' < length a" "y = a ! i'"
    by (auto simp: getitem_def Let_def i'_def n_def split: if_splits)
  have s1: "setitem a i v = Returns (a[i' := v])" for v
    using y by (auto simp: getitem_def setitem_def Let_def i'_def n_def split: if_splits)
  have s2: "setitem (a[i' := v]) j w = Returns (a[i' := v, j' := w])" for v w
    using x by (auto simp: getitem_def setitem_def Let_def j'_def n_def split: if_splits)
  from sw have "a' = a[i' := a ! j', j' := a ! i']"
    by (simp add: swap_def x y s1 s2 seq_def i j)
  with i j show ?thesis by (simp add: mset_swap)
qed

lemma insertion_while_mset:
  "insertion_while a key_gt j = Returns a' \<Longrightarrow> mset a' = mset a"
proof (induction a key_gt j rule: insertion_while.induct)
  case (1 a key_gt j)
  from "1.prems" have "seq (getitem a j) (\<lambda>x.
     seq (getitem a (j + 1)) (\<lambda>y.
     seq (key_gt x y) (\<lambda>greater.
     if greater \<and> j \<ge> 0
     then seq (swap a j (j + 1)) (\<lambda>array. insertion_while array key_gt (j - 1))
     else Returns a))) = Returns a'"
    by (subst (asm) insertion_while.simps)
  then obtain x y b where x: "getitem a j = Returns x" and y: "getitem a (j + 1) = Returns y"
    and b: "key_gt x y = Returns b"
    and r: "(if b \<and> j \<ge> 0
       then seq (swap a j (j + 1)) (\<lambda>array. insertion_while array key_gt (j - 1))
       else Returns a) = Returns a'"
    by (elim seq_ReturnsE)
  show ?case
  proof (cases "b \<and> j \<ge> 0")
    case False
    with r show ?thesis by simp
  next
    case True
    with r obtain a2 where a2: "swap a j (j + 1) = Returns a2"
      and w: "insertion_while a2 key_gt (j - 1) = Returns a'"
      by (auto elim: seq_ReturnsE)
    from "1.IH"[OF x y b True a2 w] swap_mset[OF a2] show ?thesis by simp
  qed
qed

lemma insertion_while_cong:
  "(\<forall>x\<in>set a. \<forall>y\<in>set a. key_gt x y = key_gt' x y) \<Longrightarrow>
   insertion_while a key_gt j = insertion_while a key_gt' j"
proof (induction a key_gt j rule: insertion_while.induct)
  case (1 a key_gt j)
  note s = insertion_while.simps[of a key_gt j] and s' = insertion_while.simps[of a key_gt' j]
  show ?case
  proof (cases "getitem a j")
    case (Returns x)
    note x = this
    show ?thesis
    proof (cases "getitem a (j + 1)")
      case (Returns y)
      note y = this
      from getitem_in_set[OF x] getitem_in_set[OF y] "1.prems"
      have eq: "key_gt x y = key_gt' x y" by blast
      show ?thesis
      proof (cases "key_gt x y")
        case (Returns b)
        note b = this
        show ?thesis
        proof (cases "b \<and> j \<ge> 0")
          case False
          with x y b eq show ?thesis by (auto simp: s s' seq_def)
        next
          case True
          show ?thesis
          proof (cases "swap a j (j + 1)")
            case (Returns a2)
            from swap_mset[OF Returns] have "set a2 = set a" by (rule mset_eq_setD)
            with "1.prems" have "\<forall>x\<in>set a2. \<forall>y\<in>set a2. key_gt x y = key_gt' x y" by simp
            from "1.IH"[OF x y b True Returns this] x y b eq True Returns
            show ?thesis by (simp add: s s' seq_def)
          qed (use x y b eq True in \<open>simp_all add: s s' seq_def\<close>)
        qed
      qed (use x y eq in \<open>simp_all add: s s' seq_def\<close>)
    qed (use x in \<open>simp_all add: s s' seq_def\<close>)
  qed (simp_all add: s s' seq_def)
qed

lemma insertion_for_cong:
  "(\<forall>x\<in>set a. \<forall>y\<in>set a. key_gt x y = key_gt' x y) \<Longrightarrow>
   insertion_for a key_gt js = insertion_for a key_gt' js"
proof (induction js arbitrary: a)
  case Nil show ?case by simp
next
  case (Cons j js)
  have w: "insertion_while a key_gt (j - 1) = insertion_while a key_gt' (j - 1)"
    using Cons.prems by (rule insertion_while_cong)
  show ?case
  proof (cases "insertion_while a key_gt' (j - 1)")
    case (Returns a2)
    from insertion_while_mset[OF Returns] have "set a2 = set a" by (rule mset_eq_setD)
    with Cons.prems have "\<forall>x\<in>set a2. \<forall>y\<in>set a2. key_gt x y = key_gt' x y" by simp
    from Cons.IH[OF this] w Returns show ?thesis by (simp add: seq_def)
  qed (simp_all add: w seq_def)
qed

lemma insertion_sort_cong:
  "(\<forall>x\<in>set a. \<forall>y\<in>set a. key_gt x y = key_gt' x y) \<Longrightarrow>
   insertion_sort a key_gt = insertion_sort a key_gt'"
  unfolding insertion_sort_def by (rule insertion_for_cong)

lemma getitem_append_mid: "getitem (P @ v # S) (int (length P)) = Returns v"
  by (simp add: getitem_def)

lemma getitem_minus_one: "a \<noteq> [] \<Longrightarrow> \<exists>x. getitem a (- 1) = Returns x"
  by (cases a) (auto simp: getitem_def)

lemma swap_adjacent:
  "swap (Q @ u # v # S) (int (length Q)) (int (length Q) + 1) = Returns (Q @ v # u # S)"
proof -
  let ?a = "Q @ u # v # S" and ?n = "length Q"
  have n: "nat (int ?n + 1) = Suc ?n" by simp
  have "swap ?a (int ?n) (int ?n + 1) = Returns (?a[nat (int ?n) := ?a ! nat (int ?n + 1),
      nat (int ?n + 1) := ?a ! nat (int ?n)])"
    by (rule swap_nat) auto
  also have "?a[nat (int ?n) := ?a ! nat (int ?n + 1), nat (int ?n + 1) := ?a ! nat (int ?n)]
      = Q @ v # u # S"
    unfolding n by (simp add: nth_append list_update_append)
  finally show ?thesis .
qed

lemma insertion_while_sorted:
  fixes key :: "'a \<Rightarrow> 'k::linorder"
  shows "sorted (map key P) \<Longrightarrow>
   \<exists>P'. insertion_while (P @ v # S) (key_gt_of key) (int (length P) - 1) = Returns (P' @ S)
     \<and> mset P' = mset P + {#v#} \<and> sorted (map key P')"
proof (induction P arbitrary: S rule: rev_induct)
  case Nil
  obtain x where x: "getitem (v # S) (- 1) = Returns x"
    using getitem_minus_one[of "v # S"] by auto
  have y: "getitem (v # S) 0 = Returns v" by (simp add: getitem_def)
  have "insertion_while (v # S) (key_gt_of key) (- 1) = Returns (v # S)"
    by (subst insertion_while.simps) (simp add: x y key_gt_of_def seq_def)
  then show ?case by (intro exI[of _ "[v]"]) simp
next
  case (snoc u Q)
  let ?a = "Q @ u # v # S"
  have j: "int (length (Q @ [u])) - 1 = int (length Q)" by simp
  have x: "getitem ?a (int (length Q)) = Returns u"
    by (rule getitem_append_mid)
  have y: "getitem ?a (int (length Q) + 1) = Returns v"
    using getitem_append_mid[of "Q @ [u]" v S] by (simp add: add.commute)
  from snoc.prems have sQ: "sorted (map key Q)" and leu: "\<forall>q \<in> set Q. key q \<le> key u"
    by (auto simp: sorted_append)
  note s = insertion_while.simps[of ?a "key_gt_of key" "int (length Q)"]
  show ?case
  proof (cases "key u > key v")
    case False
    have "insertion_while ?a (key_gt_of key) (int (length Q)) = Returns ?a"
      using False by (simp add: s x y key_gt_of_def seq_def)
    moreover have "sorted (map key ((Q @ [u]) @ [v]))"
      using snoc.prems False leu by (auto simp: sorted_append)
    ultimately show ?thesis
      unfolding j by (intro exI[of _ "(Q @ [u]) @ [v]"]) simp
  next
    case True
    have sw: "swap ?a (int (length Q)) (int (length Q) + 1) = Returns (Q @ v # u # S)"
      by (rule swap_adjacent)
    from snoc.IH[OF sQ, of "u # S"] obtain Q' where
      Q': "insertion_while (Q @ v # u # S) (key_gt_of key) (int (length Q) - 1) = Returns (Q' @ u # S)"
      and ms: "mset Q' = mset Q + {#v#}" and so: "sorted (map key Q')"
      by auto
    have eq: "insertion_while ?a (key_gt_of key) (int (length Q)) = Returns (Q' @ u # S)"
      using True by (simp add: s x y sw Q' key_gt_of_def seq_def)
    from ms have "set_mset (mset Q') = set_mset (mset Q + {#v#})" by simp
    then have "set Q' = set Q \<union> {v}" by simp
    with leu True have "\<forall>q \<in> set Q'. key q \<le> key u" by auto
    with so have "sorted (map key (Q' @ [u]))" by (auto simp: sorted_append)
    with eq ms show ?thesis unfolding j by (intro exI[of _ "Q' @ [u]"]) simp
  qed
qed

lemma insertion_for_sorted:
  fixes key :: "'a \<Rightarrow> 'k::linorder"
  shows "k \<le> length a \<Longrightarrow> sorted (map key (take k a)) \<Longrightarrow>
   \<exists>r. insertion_for a (key_gt_of key) (map int [k..<length a]) = Returns r
     \<and> mset r = mset a \<and> sorted (map key r)"
proof (induction "length a - k" arbitrary: a k)
  case 0
  then have "k = length a" by simp
  with "0.prems" show ?case by simp
next
  case (Suc n)
  then have k: "k < length a" by simp
  let ?P = "take k a" and ?v = "a ! k" and ?S = "drop (Suc k) a"
  have a: "a = ?P @ ?v # ?S" using k by (rule id_take_nth_drop)
  have lenP: "length ?P = k" using k by simp
  from insertion_while_sorted[OF Suc.prems(2), of ?v ?S] obtain P' where
    w: "insertion_while a (key_gt_of key) (int k - 1) = Returns (P' @ ?S)"
    and ms: "mset P' = mset ?P + {#?v#}" and so: "sorted (map key P')"
    unfolding a[symmetric] lenP by auto
  define a' where "a' = P' @ ?S"
  from ms have lenP': "length P' = Suc k"
    using lenP by (metis size_mset size_union size_single Suc_eq_plus1)
  have len': "length a' = length a" using k lenP' by (simp add: a'_def)
  have msa: "mset a' = mset a"
  proof -
    have "mset a = mset ?P + {#?v#} + mset ?S" by (subst a) simp
    then show ?thesis by (simp add: a'_def ms)
  qed
  have tk: "take (Suc k) a' = P'" using lenP' by (simp add: a'_def)
  have "n = length a' - Suc k" using Suc.hyps(2) len' by simp
  moreover have "Suc k \<le> length a'" using k len' by simp
  moreover have "sorted (map key (take (Suc k) a'))" using so tk by simp
  ultimately obtain r where
    r: "insertion_for a' (key_gt_of key) (map int [Suc k..<length a']) = Returns r"
       "mset r = mset a'" "sorted (map key r)"
    using Suc.hyps(1)[of a' "Suc k"] by blast
  have "[k..<length a] = k # [Suc k..<length a]" using k by (rule upt_conv_Cons)
  then have "insertion_for a (key_gt_of key) (map int [k..<length a]) = Returns r"
    using w r(1) by (simp add: seq_def a'_def[symmetric] len')
  with r msa show ?case by auto
qed

lemma insertion_sort_sorted:
  fixes key :: "'a \<Rightarrow> 'k::linorder"
  shows "\<exists>r. insertion_sort a (key_gt_of key) = Returns r \<and> mset r = mset a \<and> sorted (map key r)"
  unfolding insertion_sort_def using insertion_for_sorted[of 0 a key] by simp

section \<open>The external sorter\<close>

lemma exact_compare_loop_past_end:
  assumes "int (length text) \<le> pos1" and "int (length text) \<le> pos2"
  shows "exact_compare_loop text pos1 pos2 = None"
proof (cases "exact_compare_loop text pos1 pos2")
  case None then show ?thesis .
next
  case (Some r)
  have "int (length text) \<le> pos1 \<longrightarrow> int (length text) \<le> pos2 \<longrightarrow> False"
  proof (rule exact_compare_loop.raw_induct[where P = "\<lambda>t p1 p2 r.
      int (length t) \<le> p1 \<longrightarrow> int (length t) \<le> p2 \<longrightarrow> False", OF _ Some], intro impI)
    fix loop :: "string \<Rightarrow> int \<Rightarrow> int \<Rightarrow> int option" and t p1 p2 r
    assume IH: "\<And>t p1 p2 r. loop t p1 p2 = Some r \<Longrightarrow>
        int (length t) \<le> p1 \<longrightarrow> int (length t) \<le> p2 \<longrightarrow> False"
      and body: "(let bytes1 = slice t p1 (p1 + COMPARE_BUFFER_SIZE);
                    bytes2 = slice t p2 (p2 + COMPARE_BUFFER_SIZE)
                in if bytes1 \<noteq> bytes2 then Some (if bytes1 < bytes2 then - 1 else 1)
                   else loop t (p1 + COMPARE_BUFFER_SIZE) (p2 + COMPARE_BUFFER_SIZE)) = Some r"
      and past: "int (length t) \<le> p1" "int (length t) \<le> p2"
    from past have "slice t p1 (p1 + COMPARE_BUFFER_SIZE) = []"
      "slice t p2 (p2 + COMPARE_BUFFER_SIZE) = []"
      by (auto simp: slice_def clip_def COMPARE_BUFFER_SIZE_def)
    with body have "loop t (p1 + COMPARE_BUFFER_SIZE) (p2 + COMPARE_BUFFER_SIZE) = Some r"
      by (simp add: Let_def)
    moreover from past have "int (length t) \<le> p1 + COMPARE_BUFFER_SIZE"
      "int (length t) \<le> p2 + COMPARE_BUFFER_SIZE"
      by (auto simp: COMPARE_BUFFER_SIZE_def)
    ultimately show False using IH by blast
  qed
  with assms show ?thesis by simp
qed


lemma median_of_three_in_range:
  fixes key :: "'a \<Rightarrow> 'k::linorder"
  shows "in_range_pivotselector median_of_three key"
  unfolding in_range_pivotselector_def
proof (intro allI impI)
  fix a :: "'a list" and lo hi :: int
  assume r: "0 \<le> lo \<and> lo < hi \<and> hi \<le> int (length a)"
  define m where "m = (hi - 1 + lo) div 2"
  have m: "lo \<le> m" "m \<le> hi - 1" using r by (auto simp: m_def)
  have m': "(lo + hi - 1) div 2 = m" by (simp add: m_def algebra_simps)
  have g: "getitem a lo = Returns (a ! nat lo)" "getitem a (hi - 1) = Returns (a ! nat (hi - 1))"
    "getitem a m = Returns (a ! nat m)"
    using r m by (auto intro!: getitem_nat)
  show "\<exists>p. median_of_three a lo hi key = Returns p \<and> lo \<le> p \<and> p < hi"
    using r m unfolding median_of_three_def m_def[symmetric] m'
    by (auto simp: g seq_def Let_def)
qed

lemma take_first_pivot_in_range: "in_range_pivotselector take_first_pivot key"
  by (simp add: in_range_pivotselector_def take_first_pivot_def)

lemma quicksort_spec:
  assumes "in_range_pivotselector pivotselector key"
  shows "\<exists>s. mset s = mset a
     \<and> ((\<exists>calls. quicksort a key pivotselector cutoff room = Finishes s calls \<and> sorted (map key s))
        \<or> (quicksort a key pivotselector cutoff room = TooDeep s \<and> room \<le> length a))"
  using quicksort_subarray_spec[OF assms, of 0 "int (length a)" a cutoff room]
  by (simp add: quicksort_def)

lemma quicksort_delegates:
  assumes "0 < room"
  shows "quicksort a key pivotselector (int (length a)) room =
     Finishes (sort_key key a) (if a = [] then [] else [(0, int (length a))])"
proof (cases "a = []")
  case True
  with assms show ?thesis
    by (simp add: quicksort_def quicksort_subarray.simps)
next
  case False
  have "builtin_timsort a 0 (int (length a)) key = Returns (sort_key key a)"
    using builtin_timsort_spec[of 0 "int (length a)" a key] by simp
  with False assms show ?thesis
    by (simp add: quicksort_def quicksort_subarray.simps after_def)
qed

text \<open>On an array that is already in strictly increasing key order, partitioning with the
  first element as the pivot changes nothing and splits off the first element alone, so
  quicksort with cutoff 0 nests one level for every element, and one more for the empty
  subrange at the end.\<close>

lemma partition_sorted_first:
  assumes "0 \<le> lo" "lo < hi" "hi \<le> int (length a)" "sorted_wrt (<) (map key a)"
  shows "partition_subarray a lo hi key take_first_pivot = Returns (a, lo)"
proof -
  have less: "key (a ! i) < key (a ! j)" if "i < j" "j < length a" for i j
    using assms(4) that by (simp add: sorted_wrt_map sorted_wrt_iff_nth_less)
  have sw: "swap a lo lo = Returns a"
    using swap_nat[of lo a lo] assms by simp
  have gi: "getitem a lo = Returns (a ! nat lo)"
    using assms by (simp add: getitem_nat)
  have r0: "0 \<le> lo + 1" "hi - 1 < int (length a)" using assms by simp_all
  from scan_lo_spec[OF r0, of key "a ! nat lo"] obtain l where
    l: "scan_lo a key (a ! nat lo) (lo + 1) (hi - 1) = Returns l" "lo + 1 \<le> l"
       "l \<le> max (lo + 1) (hi - 1 + 1)"
       "\<forall>i. lo + 1 \<le> i \<and> i < l \<longrightarrow> key (a ! nat i) < key (a ! nat lo)"
    by auto
  have "l = lo + 1"
  proof (rule ccontr)
    assume "l \<noteq> lo + 1"
    with l(2,3) have b: "lo + 1 < l" "l \<le> hi" by auto
    with l(4) have "key (a ! nat (lo + 1)) < key (a ! nat lo)" by simp
    moreover have "key (a ! nat lo) < key (a ! nat (lo + 1))"
      using assms b by (intro less) auto
    ultimately show False by simp
  qed
  with l(1) have sl: "scan_lo a key (a ! nat lo) (lo + 1) (hi - 1) = Returns (lo + 1)" by simp
  from scan_hi_spec[OF r0, of key "a ! nat lo"] obtain h where
    h: "scan_hi a key (a ! nat lo) (lo + 1) (hi - 1) = Returns h" "h \<le> hi - 1"
       "min (hi - 1) (lo + 1 - 1) \<le> h"
       "lo + 1 \<le> h \<longrightarrow> \<not> key (a ! nat h) > key (a ! nat lo)"
    by auto
  have "h = lo"
  proof (rule ccontr)
    assume "h \<noteq> lo"
    with h(3) assms(2) have b: "lo + 1 \<le> h" by auto
    with h(4) have "\<not> key (a ! nat lo) < key (a ! nat h)" by simp
    moreover have "key (a ! nat lo) < key (a ! nat h)"
      using assms b h(2) by (intro less) auto
    ultimately show False by simp
  qed
  with h(1) have sh: "scan_hi a key (a ! nat lo) (lo + 1) (hi - 1) = Returns lo" by simp
  have pl: "partition_loop a key (a ! nat lo) (lo + 1) (hi - 1) = Returns (a, lo)"
    by (subst partition_loop.simps) (simp add: sl sh seq_def)
  show ?thesis
    by (simp add: partition_subarray_def take_first_pivot_def sw gi pl seq_def)
qed

lemma quicksort_subarray_sorted_first:
  assumes "sorted_wrt (<) (map key a)"
  shows "0 \<le> lo \<Longrightarrow> lo \<le> hi \<Longrightarrow> hi \<le> int (length a) \<Longrightarrow>
     quicksort_subarray a lo hi key take_first_pivot 0 room =
       (if nat (hi - lo) < room then Finishes a [] else TooDeep a)"
proof (induction room arbitrary: lo)
  case 0
  show ?case by (simp add: quicksort_subarray.simps)
next
  case (Suc room)
  show ?case
  proof (cases "hi = lo")
    case True
    then show ?thesis by (simp add: quicksort_subarray.simps)
  next
    case False
    with Suc.prems have lohi: "lo < hi" by simp
    have part: "partition_subarray a lo hi key take_first_pivot = Returns (a, lo)"
      using Suc.prems(1) lohi Suc.prems(3) assms by (rule partition_sorted_first)
    have left: "quicksort_subarray a lo lo key take_first_pivot 0 room =
        (if 0 < room then Finishes a [] else TooDeep a)"
      using Suc.IH[of lo] Suc.prems lohi
      by (simp add: quicksort_subarray.simps[of a lo lo])
    have right: "quicksort_subarray a (lo + 1) hi key take_first_pivot 0 room =
        (if nat (hi - (lo + 1)) < room then Finishes a [] else TooDeep a)"
      using Suc.prems lohi by (intro Suc.IH) auto
    have "nat (hi - lo) = Suc (nat (hi - (lo + 1)))" using lohi by simp
    then show ?thesis
      using lohi part left right
      by (subst quicksort_subarray.simps) (auto simp: after_def and_then_def Let_def)
  qed
qed

lemma quicksort_sorted_first:
  assumes "sorted_wrt (<) (map key a)"
  shows "quicksort a key take_first_pivot 0 room =
     (if length a < room then Finishes a [] else TooDeep a)"
  using quicksort_subarray_sorted_first[OF assms, of 0 "int (length a)" room]
  by (simp add: quicksort_def)

lemma exact_compare_key_suffix:
  assumes "p \<le> length text" "q \<le> length text"
  shows "exact_compare_key text p q =
     Returns (if p = q then 0 else if drop p text < drop q text then - 1 else 1)"
  using assms exact_compare_loop_suffix[of p q "text"] by (simp add: exact_compare_key_def)

lemma cmp_gt_exact:
  assumes "p \<le> length text" "q \<le> length text"
  shows "cmp_gt (exact_compare_key text) p q = key_gt_of (\<lambda>p. drop p text) p q"
  using assms drop_neq[of p q "text"]
  by (auto simp: cmp_gt_def key_gt_of_def exact_compare_key_suffix seq_def)

text \<open>
  Claim C2, amended. For a non-empty index file whose entries are byte positions within the
  text, the external sorter (quicksort by the 100-byte prefix key, then insertion sort by
  the exact comparator) either returns, and then leaves the index a rearrangement of its
  input in which the suffixes of the text at the entries are in non-decreasing lexicographic
  order, or raises \<^verbatim>\<open>RecursionError\<close> in its quicksort; it raises only when the call stack
  has room for no more nested calls of \<^verbatim>\<open>quicksort_subarray\<close> than the index has entries.
  In particular \<^verbatim>\<open>insertion_sort\<close> with the exact comparator returns for every array of
  byte positions within the text and sorts it into non-decreasing suffix order. The claim as
  stated, for every index contents, fails: two different entries at or past the end of the
  text make the exact comparator loop forever, and an empty index file cannot be mapped.
\<close>

theorem sort_suffix_array_correct:
  assumes "indexfile \<noteq> []" and "\<forall>p \<in> set indexfile. p < length textfile"
    and "\<forall>p \<in> set array. p < length textfile"
  shows "((\<exists>index calls. sort_suffix_array textfile indexfile cutoff room = Returns (index, calls)
             \<and> mset index = mset indexfile \<and> sorted (map (\<lambda>p. drop p textfile) index))
          \<or> (sort_suffix_array textfile indexfile cutoff room = Raises RecursionError
             \<and> room \<le> length indexfile))
     \<and> (\<exists>array'. insertion_sort array (cmp_gt (exact_compare_key textfile)) = Returns array'
             \<and> mset array' = mset array \<and> sorted (map (\<lambda>p. drop p textfile) array'))"
proof
  have ins: "\<exists>r. insertion_sort s (cmp_gt (exact_compare_key textfile)) = Returns r
      \<and> mset r = mset s \<and> sorted (map (\<lambda>p. drop p textfile) r)"
    if "\<forall>p \<in> set s. p < length textfile" for s
  proof -
    from that have "\<forall>x\<in>set s. \<forall>y\<in>set s.
        cmp_gt (exact_compare_key textfile) x y = key_gt_of (\<lambda>p. drop p textfile) x y"
      by (auto intro!: cmp_gt_exact less_imp_le)
    then have "insertion_sort s (cmp_gt (exact_compare_key textfile)) =
        insertion_sort s (key_gt_of (\<lambda>p. drop p textfile))"
      by (rule insertion_sort_cong)
    with insertion_sort_sorted[of s "\<lambda>p. drop p textfile"] show ?thesis by simp
  qed
  from ins[OF assms(3)]
  show "\<exists>array'. insertion_sort array (cmp_gt (exact_compare_key textfile)) = Returns array'
      \<and> mset array' = mset array \<and> sorted (map (\<lambda>p. drop p textfile) array')" .
  from assms have t: "textfile \<noteq> []" by (cases indexfile) auto
  have unfold: "sort_suffix_array textfile indexfile cutoff room =
      seq (propagate (quicksort indexfile (take_prefix textfile) median_of_three 0 room)) (\<lambda>(suffixarray, calls).
      seq (insertion_sort suffixarray (cmp_gt (exact_compare_key textfile))) (\<lambda>suffixarray.
      Returns (suffixarray, calls)))"
    using t assms(1)
    by (simp add: sort_suffix_array_def DiskBytesArray_def DiskIntArray_def mmap_whole_file_def seq_def)
  from quicksort_spec[OF median_of_three_in_range, of indexfile "take_prefix textfile" 0 room]
  obtain s where ms: "mset s = mset indexfile"
    and q: "(\<exists>calls. quicksort indexfile (take_prefix textfile) median_of_three 0 room = Finishes s calls)
          \<or> (quicksort indexfile (take_prefix textfile) median_of_three 0 room = TooDeep s
             \<and> room \<le> length indexfile)"
    by blast
  from q show "(\<exists>index calls. sort_suffix_array textfile indexfile cutoff room = Returns (index, calls)
             \<and> mset index = mset indexfile \<and> sorted (map (\<lambda>p. drop p textfile) index))
          \<or> (sort_suffix_array textfile indexfile cutoff room = Raises RecursionError
             \<and> room \<le> length indexfile)"
  proof (elim disjE exE conjE)
    fix calls
    assume f: "quicksort indexfile (take_prefix textfile) median_of_three 0 room = Finishes s calls"
    from ms have "set s = set indexfile" by (rule mset_eq_setD)
    with assms(2) have "\<forall>p \<in> set s. p < length textfile" by simp
    from ins[OF this] obtain r where
      "insertion_sort s (cmp_gt (exact_compare_key textfile)) = Returns r"
      "mset r = mset s" "sorted (map (\<lambda>p. drop p textfile) r)" by blast
    with f ms show ?thesis by (simp add: unfold propagate_def seq_def)
  next
    assume "quicksort indexfile (take_prefix textfile) median_of_three 0 room = TooDeep s"
      and "room \<le> length indexfile"
    then show ?thesis by (simp add: unfold propagate_def seq_def)
  qed
qed

theorem sort_suffix_array_correct_witness:
  "[0, 2] \<noteq> ([]::nat list) \<and> (0::nat) < length ''b a'' \<and> (2::nat) < length ''b a''
   \<and> (\<exists>index calls. sort_suffix_array ''b a'' [0, 2] 10000 100 = Returns (index, calls)
        \<and> mset index = mset [0, 2] \<and> sorted (map (\<lambda>p. drop p ''b a'') index))
   \<and> (\<exists>array'. insertion_sort [2, 0, 2] (cmp_gt (exact_compare_key ''b a'')) = Returns array'
        \<and> mset array' = mset [2, 0, 2] \<and> sorted (map (\<lambda>p. drop p ''b a'') array'))"
  using sort_suffix_array_correct[of "[0, 2]" "''b a''" "[2, 0, 2]" 10000 100] by simp

theorem sort_suffix_array_counterexample:
  "\<forall>room. sort_suffix_array ''a'' [1, 2] 10000 (room + 3) = Diverges
      \<and> sort_suffix_array ''a'' [] 10000 room = Raises ValueError"
  by (simp add: run exact_compare_loop_past_end del: exact_compare_loop.simps
      cong: seq_weak_cong after_weak_cong and_then_weak_cong)

text \<open>
  Claim C10. Each sorting operation leaves the array a permutation of what it was: quicksort
  (for every cutoff and every pivot strategy that returns an index of its subrange), whether
  it returns or the recursion runs out of room and \<^verbatim>\<open>RecursionError\<close> leaves it with the
  array as it stands; insertion sort, the built-in sort of a subrange, and one call of
  partition on a non-empty subrange, each of which returns.
\<close>

theorem sorting_preserves_multiset:
  assumes "in_range_pivotselector pivotselector key"
    and "0 \<le> lo" and "lo \<le> hi" and "hi \<le> int (length array)"
  shows "(\<exists>array'. ((\<exists>calls. quicksort array key pivotselector cutoff room = Finishes array' calls)
              \<or> quicksort array key pivotselector cutoff room = TooDeep array')
            \<and> mset array' = mset array)
     \<and> (\<exists>array'. insertion_sort array (key_gt_of key) = Returns array' \<and> mset array' = mset array)
     \<and> (\<exists>array'. builtin_timsort array lo hi key = Returns array' \<and> mset array' = mset array)
     \<and> (lo < hi \<longrightarrow> (\<exists>array' p. partition_subarray array lo hi key pivotselector = Returns (array', p)
            \<and> mset array' = mset array))"
proof (intro conjI impI)
  show "\<exists>array'. ((\<exists>calls. quicksort array key pivotselector cutoff room = Finishes array' calls)
              \<or> quicksort array key pivotselector cutoff room = TooDeep array')
            \<and> mset array' = mset array"
    using quicksort_spec[OF assms(1), of array cutoff room] by blast
  show "\<exists>array'. insertion_sort array (key_gt_of key) = Returns array' \<and> mset array' = mset array"
    using insertion_sort_sorted[of array key] by blast
  show "\<exists>array'. builtin_timsort array lo hi key = Returns array' \<and> mset array' = mset array"
  proof -
    have "mset array = mset (take (nat lo) array) + mset (take (nat hi - nat lo) (drop (nat lo) array))
        + mset (drop (nat hi) array)"
      using seg_whole[of "nat lo" "nat hi" array] assms(2,3) by (metis mset_append add.assoc nat_mono)
    moreover have "nat (hi - lo) = nat hi - nat lo" using assms(2,3) by simp
    ultimately show ?thesis
      by (simp add: builtin_timsort_spec[OF assms(2-4)])
  qed
next
  assume "lo < hi"
  with assms obtain pivot where
    "pivotselector array lo hi key = Returns pivot" "lo \<le> pivot" "pivot < hi"
    unfolding in_range_pivotselector_def by blast
  from partition_subarray_spec[of lo hi array pivotselector key pivot, OF assms(2) \<open>lo < hi\<close> assms(4) this]
  show "\<exists>array' p. partition_subarray array lo hi key pivotselector = Returns (array', p)
            \<and> mset array' = mset array" by blast
qed

theorem sorting_preserves_multiset_witness:
  "in_range_pivotselector take_first_pivot (\<lambda>x::nat. x)
   \<and> (0::int) \<le> 0 \<and> (0::int) \<le> 3 \<and> 3 \<le> int (length [3, 1, 2::nat])
   \<and> (\<exists>array'. ((\<exists>calls. quicksort [3, 1, 2::nat] (\<lambda>x. x) take_first_pivot 0 100 = Finishes array' calls)
              \<or> quicksort [3, 1, 2::nat] (\<lambda>x. x) take_first_pivot 0 100 = TooDeep array')
            \<and> mset array' = mset [3, 1, 2])
   \<and> (\<exists>array'. insertion_sort [3, 1, 2::nat] (key_gt_of (\<lambda>x. x)) = Returns array'
            \<and> mset array' = mset [3, 1, 2])
   \<and> (\<exists>array'. builtin_timsort [3, 1, 2::nat] 0 3 (\<lambda>x. x) = Returns array'
            \<and> mset array' = mset [3, 1, 2])
   \<and> (\<exists>array' p. partition_subarray [3, 1, 2::nat] 0 3 (\<lambda>x. x) take_first_pivot = Returns (array', p)
            \<and> mset array' = mset [3, 1, 2])"
  using sorting_preserves_multiset[of take_first_pivot "\<lambda>x::nat. x" 0 3 "[3, 1, 2]" 0 100]
    take_first_pivot_in_range[of "\<lambda>x::nat. x"]
  by simp

text \<open>
  Claim C9, amended. With a pivot strategy that returns an index of its subrange and room
  for one call of \<^verbatim>\<open>quicksort_subarray\<close>, quicksort with the cutoff equal to the array length
  returns. Quicksort with cutoff 0 either returns, and then the two final arrays agree key
  for key at every position and are the same array, element for element, when the key
  function is injective on the elements of the array; or it raises \<^verbatim>\<open>RecursionError\<close>, which
  it does only when the call stack has room for no more nested calls of
  \<^verbatim>\<open>quicksort_subarray\<close> than the array has elements. The claim as stated fails in two ways.
  Where different elements have equal keys the two final arrays differ: the built-in sort is
  stable and the partition is not. And the run with cutoff 0 need not return: on 1500
  elements in increasing order, with the first element as the pivot, it nests 1501 calls,
  more than the default recursion limit allows, where the run with the cutoff 1500 returns.
\<close>

theorem cutoff_equivalence:
  assumes "in_range_pivotselector pivotselector key" and "0 < room"
  shows "\<exists>array1 calls1.
      quicksort array key pivotselector (int (length array)) room = Finishes array1 calls1
    \<and> ((\<exists>array2 calls2. quicksort array key pivotselector 0 room = Finishes array2 calls2
           \<and> map key array1 = map key array2
           \<and> (inj_on key (set array) \<longrightarrow> array1 = array2))
       \<or> (\<exists>array2. quicksort array key pivotselector 0 room = TooDeep array2
           \<and> room \<le> length array))"
proof -
  define s1 where "s1 = sort_key key array"
  define c1 where "c1 = (if array = [] then [] else [(0::int, int (length array))])"
  have q1: "quicksort array key pivotselector (int (length array)) room = Finishes s1 c1"
    unfolding s1_def c1_def using assms(2) by (rule quicksort_delegates)
  have m1: "mset s1 = mset array" and so1: "sorted (map key s1)" by (simp_all add: s1_def)
  from quicksort_spec[OF assms(1), of array 0 room] obtain s2 where
    m2: "mset s2 = mset array"
    and q2: "(\<exists>calls. quicksort array key pivotselector 0 room = Finishes s2 calls \<and> sorted (map key s2))
          \<or> (quicksort array key pivotselector 0 room = TooDeep s2 \<and> room \<le> length array)"
    by blast
  from q2 show ?thesis
  proof (elim disjE exE conjE)
    fix c2
    assume f: "quicksort array key pivotselector 0 room = Finishes s2 c2"
      and so2: "sorted (map key s2)"
    have "mset (map key s1) = mset (map key s2)" using m1 m2 by (metis mset_map)
    with so1 so2 have eq: "map key s1 = map key s2"
      by (metis properties_for_sort)
    have "set s1 = set array" "set s2 = set array"
      using m1 m2 by (auto dest: mset_eq_setD)
    then have "inj_on key (set array) \<longrightarrow> s1 = s2"
      using eq by (auto simp: inj_on_map_eq_map)
    with q1 f eq show ?thesis by blast
  next
    assume "quicksort array key pivotselector 0 room = TooDeep s2" and "room \<le> length array"
    with q1 show ?thesis by blast
  qed
qed

theorem cutoff_equivalence_witness:
  "in_range_pivotselector take_first_pivot (\<lambda>x::nat. x) \<and> (0::nat) < 100
   \<and> inj_on (\<lambda>x::nat. x) (set [3, 1, 2])
   \<and> (\<exists>array1 calls1.
      quicksort [3, 1, 2::nat] (\<lambda>x. x) take_first_pivot (int (length [3, 1, 2::nat])) 100 = Finishes array1 calls1
    \<and> (\<exists>array2 calls2. quicksort [3, 1, 2::nat] (\<lambda>x. x) take_first_pivot 0 100 = Finishes array2 calls2
         \<and> map (\<lambda>x. x) array1 = map (\<lambda>x. x) array2 \<and> array1 = array2))"
  using cutoff_equivalence[of take_first_pivot "\<lambda>x::nat. x" 100 "[3, 1, 2]"]
    take_first_pivot_in_range[of "\<lambda>x::nat. x"]
  by simp

theorem cutoff_equivalence_counterexample:
  "in_range_pivotselector take_first_pivot (\<lambda>x::nat. 0::nat)
   \<and> (\<forall>room. quicksort [1, 2, 3::nat] (\<lambda>x. 0::nat) take_first_pivot (int (length [1, 2, 3::nat])) (room + 4)
         = Finishes [1, 2, 3] [(0, 3)]
       \<and> quicksort [1, 2, 3::nat] (\<lambda>x. 0::nat) take_first_pivot 0 (room + 4) = Finishes [3, 1, 2] [])
   \<and> in_range_pivotselector take_first_pivot (\<lambda>x::nat. x)
   \<and> quicksort [0..<1500] (\<lambda>x. x) take_first_pivot (int (length [0..<1500])) default_recursion_limit
       = Finishes [0..<1500] [(0, 1500)]
   \<and> quicksort [0..<1500] (\<lambda>x. x) take_first_pivot 0 default_recursion_limit = TooDeep [0..<1500]"
proof (intro conjI allI)
  fix room :: nat
  show "quicksort [1, 2, 3::nat] (\<lambda>x. 0::nat) take_first_pivot (int (length [1, 2, 3::nat])) (room + 4)
      = Finishes [1, 2, 3] [(0, 3)]"
    by (simp add: run cong: seq_weak_cong after_weak_cong and_then_weak_cong)
  show "quicksort [1, 2, 3::nat] (\<lambda>x. 0::nat) take_first_pivot 0 (room + 4) = Finishes [3, 1, 2] []"
    by (simp add: run cong: seq_weak_cong after_weak_cong and_then_weak_cong)
next
  show "in_range_pivotselector take_first_pivot (\<lambda>x::nat. 0::nat)"
    "in_range_pivotselector take_first_pivot (\<lambda>x::nat. x)"
    by (rule take_first_pivot_in_range)+
  have so: "sorted_wrt (<) (map (\<lambda>x. x) [0..<1500])"
    by (simp only: list.map_ident sorted_wrt_upt)
  have len: "length [0..<1500] = 1500" by (simp only: length_upt diff_zero)
  have ne: "[0..<1500] \<noteq> []" using len by (metis length_0_conv zero_neq_numeral)
  have st: "sort_key (\<lambda>x. x) [0..<1500] = [0..<1500]"
    by (rule sorted_sort_id) (simp only: sorted_upt)
  show "quicksort [0..<1500] (\<lambda>x. x) take_first_pivot (int (length [0..<1500])) default_recursion_limit
      = Finishes [0..<1500] [(0, 1500)]"
    using quicksort_delegates[of default_recursion_limit "[0..<1500]" "\<lambda>x. x" take_first_pivot]
    by (simp only: st ne len if_False) (simp add: default_recursion_limit_def)
  show "quicksort [0..<1500] (\<lambda>x. x) take_first_pivot 0 default_recursion_limit = TooDeep [0..<1500]"
    using quicksort_sorted_first[OF so, of default_recursion_limit]
    by (simp only: len) (simp add: default_recursion_limit_def)
qed

section \<open>Binary search\<close>

lemma sorted_truncated:
  assumes "sorted (map (\<lambda>p. drop p text) index)"
  shows "sorted (map (\<lambda>p. take n (drop p text)) index)"
  using assms unfolding sorted_map by (rule sorted_wrt_mono_rel[rotated]) (rule take_le_mono)

lemma sorted_map_nth:
  "sorted (map f xs) \<Longrightarrow> i \<le> j \<Longrightarrow> j < length xs \<Longrightarrow> f (xs ! i) \<le> f (xs ! j)"
  using sorted_nth_mono[of "map f xs" i j] by simp

lemma binary_search_loop_spec:
  "0 \<le> low \<Longrightarrow> low \<le> high \<Longrightarrow> high < int (length index) \<Longrightarrow>
     (\<forall>i. 0 \<le> i \<and> i < low \<longrightarrow> take (length search_key) (drop (index ! nat i) text) < search_key) \<Longrightarrow>
     (high = int (length index) - 1 \<or> search_key \<le> take (length search_key) (drop (index ! nat high) text)) \<Longrightarrow>
     sorted (map (\<lambda>p. take (length search_key) (drop p text)) index) \<Longrightarrow>
     \<exists>l h. binary_search_loop search_key index text low high = Returns (l, h)
       \<and> 0 \<le> l \<and> l \<le> h \<and> h \<le> l + 1 \<and> h < int (length index)
       \<and> (\<forall>i. 0 \<le> i \<and> i < l \<longrightarrow> take (length search_key) (drop (index ! nat i) text) < search_key)
       \<and> (h = int (length index) - 1 \<or> search_key \<le> take (length search_key) (drop (index ! nat h) text))"
proof (induction search_key index "text" low high rule: binary_search_loop.induct)
  case (1 search_key index t low high)
  note s = binary_search_loop.simps[of search_key index t low high]
  show ?case
  proof (cases "high - low > 1")
    case False
    with "1.prems" show ?thesis by (auto simp: s)
  next
    case True
    define mid where "mid = (low + high) div 2"
    have mid: "low < mid" "mid < high" using True by (auto simp: mid_def)
    with "1.prems" have g: "getitem index mid = Returns (index ! nat mid)"
      by (intro getitem_nat) auto
    define ptr_key where "ptr_key = slice t (int (index ! nat mid))
        (int (index ! nat mid) + int (length search_key))"
    have pk: "ptr_key = take (length search_key) (drop (index ! nat mid) t)"
      unfolding ptr_key_def by (rule slice_nat)
    show ?thesis
    proof (cases "search_key > ptr_key")
      case gt: True
      have below: "\<forall>i. 0 \<le> i \<and> i < mid + 1 \<longrightarrow>
          take (length search_key) (drop (index ! nat i) t) < search_key"
      proof (intro allI impI)
        fix i assume i: "0 \<le> i \<and> i < mid + 1"
        with mid "1.prems"(3) have "nat i \<le> nat mid" "nat mid < length index" by auto
        with "1.prems"(6) have "take (length search_key) (drop (index ! nat i) t) \<le> ptr_key"
          unfolding pk by (rule sorted_map_nth)
        with gt show "take (length search_key) (drop (index ! nat i) t) < search_key" by simp
      qed
      have "\<exists>l h. binary_search_loop search_key index t (mid + 1) high = Returns (l, h)
       \<and> 0 \<le> l \<and> l \<le> h \<and> h \<le> l + 1 \<and> h < int (length index)
       \<and> (\<forall>i. 0 \<le> i \<and> i < l \<longrightarrow> take (length search_key) (drop (index ! nat i) t) < search_key)
       \<and> (h = int (length index) - 1 \<or> search_key \<le> take (length search_key) (drop (index ! nat h) t))"
        using "1.prems" mid below
        by (intro "1.IH"(1)[OF True mid_def g ptr_key_def gt]) auto
      moreover have "binary_search_loop search_key index t low high =
          binary_search_loop search_key index t (mid + 1) high"
        using True gt g by (simp add: s Let_def mid_def[symmetric] ptr_key_def[symmetric] seq_def)
      ultimately show ?thesis by simp
    next
      case ngt: False
      have "\<exists>l h. binary_search_loop search_key index t low mid = Returns (l, h)
       \<and> 0 \<le> l \<and> l \<le> h \<and> h \<le> l + 1 \<and> h < int (length index)
       \<and> (\<forall>i. 0 \<le> i \<and> i < l \<longrightarrow> take (length search_key) (drop (index ! nat i) t) < search_key)
       \<and> (h = int (length index) - 1 \<or> search_key \<le> take (length search_key) (drop (index ! nat h) t))"
        using "1.prems" mid ngt pk
        by (intro "1.IH"(2)[OF True mid_def g ptr_key_def ngt]) auto
      moreover have "binary_search_loop search_key index t low high =
          binary_search_loop search_key index t low mid"
        using True ngt g by (simp add: s Let_def mid_def[symmetric] ptr_key_def[symmetric] seq_def)
      ultimately show ?thesis by simp
    qed
  qed
qed

lemma binary_search_loop_returns:
  "0 \<le> low \<Longrightarrow> low \<le> high \<Longrightarrow> high < int (length index) \<Longrightarrow>
     \<exists>l h. binary_search_loop search_key index text low high = Returns (l, h)
       \<and> 0 \<le> l \<and> l \<le> h \<and> h < int (length index)"
proof (induction search_key index "text" low high rule: binary_search_loop.induct)
  case (1 search_key index t low high)
  note s = binary_search_loop.simps[of search_key index t low high]
  show ?case
  proof (cases "high - low > 1")
    case False
    with "1.prems" show ?thesis by (auto simp: s)
  next
    case True
    define mid where "mid = (low + high) div 2"
    have mid: "low < mid" "mid < high" using True by (auto simp: mid_def)
    with "1.prems" have g: "getitem index mid = Returns (index ! nat mid)"
      by (intro getitem_nat) auto
    define ptr_key where "ptr_key = slice t (int (index ! nat mid))
        (int (index ! nat mid) + int (length search_key))"
    show ?thesis
    proof (cases "search_key > ptr_key")
      case gt: True
      have "\<exists>l h. binary_search_loop search_key index t (mid + 1) high = Returns (l, h)
         \<and> 0 \<le> l \<and> l \<le> h \<and> h < int (length index)"
        using "1.prems" mid by (intro "1.IH"(1)[OF True mid_def g ptr_key_def gt]) auto
      moreover have "binary_search_loop search_key index t low high =
          binary_search_loop search_key index t (mid + 1) high"
        using True gt g by (simp add: s Let_def mid_def[symmetric] ptr_key_def[symmetric] seq_def)
      ultimately show ?thesis by simp
    next
      case ngt: False
      have "\<exists>l h. binary_search_loop search_key index t low mid = Returns (l, h)
         \<and> 0 \<le> l \<and> l \<le> h \<and> h < int (length index)"
        using "1.prems" mid by (intro "1.IH"(2)[OF True mid_def g ptr_key_def ngt]) auto
      moreover have "binary_search_loop search_key index t low high =
          binary_search_loop search_key index t low mid"
        using True ngt g by (simp add: s Let_def mid_def[symmetric] ptr_key_def[symmetric] seq_def)
      ultimately show ?thesis by simp
    qed
  qed
qed

lemma binary_search_first_returns:
  assumes "index \<noteq> []"
  shows "\<exists>r. binary_search_first search_key index text = Returns r
     \<and> - 1 \<le> r \<and> r < int (length index)"
proof -
  from assms have "(0::int) \<le> int (length index) - 1" by (cases index) auto
  from binary_search_loop_returns[of 0 "int (length index) - 1" index search_key "text"] this
  obtain l h where
    lh: "binary_search_loop search_key index text 0 (int (length index) - 1) = Returns (l, h)"
      "0 \<le> l" "l \<le> h" "h < int (length index)" by auto
  then have g: "getitem index l = Returns (index ! nat l)" "getitem index h = Returns (index ! nat h)"
    by (auto intro!: getitem_nat)
  show ?thesis
    using lh by (auto simp: binary_search_first_def Let_def g seq_def)
qed

text \<open>
  Claim C4. For a non-empty index sorted by the suffixes of the text at its entries and any
  search key, \<^verbatim>\<open>binary_search_first\<close> returns: if some position of the index matches (the
  text at its entry, cut to the length of the key, is the key), the result is the least
  matching position; if none matches, the result is the not-found value \<^verbatim>\<open>-1\<close>.
\<close>

theorem binary_search_first_correct:
  assumes "index \<noteq> []" and "sorted (map (\<lambda>p. drop p text) index)"
  shows "\<exists>r. binary_search_first search_key index text = Returns r \<and>
     (if \<exists>i<length index. matches search_key index text i
      then 0 \<le> r \<and> r < int (length index) \<and> matches search_key index text (nat r)
           \<and> (\<forall>i<nat r. \<not> matches search_key index text i)
      else r = - 1)"
proof -
  let ?n = "length search_key"
  let ?T = "\<lambda>p. take ?n (drop p text)"
  have so: "sorted (map ?T index)" using assms(2) by (rule sorted_truncated)
  have m: "matches search_key index text i \<longleftrightarrow> search_key = ?T (index ! i)" for i
    unfolding matches_def by (simp only: slice_nat)
  from assms have "(0::int) \<le> int (length index) - 1" by (cases index) auto
  note p2 = this
  have p1: "(0::int) \<le> 0" and p3: "int (length index) - 1 < int (length index)" by simp_all
  have p4: "\<forall>i. 0 \<le> i \<and> i < (0::int) \<longrightarrow> ?T (index ! nat i) < search_key" by auto
  have p5: "int (length index) - 1 = int (length index) - 1 \<or>
      search_key \<le> ?T (index ! nat (int (length index) - 1))" by simp
  from binary_search_loop_spec[OF p1 p2 p3 p4 p5 so]
  obtain l h where
    lh: "binary_search_loop search_key index text 0 (int (length index) - 1) = Returns (l, h)"
      "0 \<le> l" "l \<le> h" "h \<le> l + 1" "h < int (length index)"
    and below: "\<forall>i. 0 \<le> i \<and> i < l \<longrightarrow> ?T (index ! nat i) < search_key"
    and above: "h = int (length index) - 1 \<or> search_key \<le> ?T (index ! nat h)"
    by auto
  have g: "getitem index l = Returns (index ! nat l)" "getitem index h = Returns (index ! nat h)"
    using lh by (auto intro!: getitem_nat)
  have sl: "slice text (int p) (int p + int ?n) = ?T p" for p by (rule slice_nat)
  have nobelow: "\<not> matches search_key index text i" if "i < nat l" for i
  proof -
    from that have "0 \<le> int i \<and> int i < l" by linarith
    with below have "?T (index ! nat (int i)) < search_key" by blast
    then show ?thesis by (simp add: m)
  qed
  consider (low) "search_key = ?T (index ! nat l)"
    | (high) "search_key \<noteq> ?T (index ! nat l)" "search_key = ?T (index ! nat h)"
    | (none) "search_key \<noteq> ?T (index ! nat l)" "search_key \<noteq> ?T (index ! nat h)" by blast
  then show ?thesis
  proof cases
    case low
    have "binary_search_first search_key index text = Returns l"
      using low by (simp add: binary_search_first_def Let_def lh(1) g sl seq_def)
    moreover have "matches search_key index text (nat l)" using low by (simp add: m)
    moreover have "nat l < length index" using lh by auto
    ultimately show ?thesis using lh nobelow by auto
  next
    case high
    have "binary_search_first search_key index text = Returns h"
      using high by (simp add: binary_search_first_def Let_def lh(1) g sl seq_def)
    moreover have mh: "matches search_key index text (nat h)" using high by (simp add: m)
    moreover have "nat h < length index" using lh by auto
    moreover have "\<not> matches search_key index text i" if "i < nat h" for i
    proof (cases "i < nat l")
      case True then show ?thesis by (rule nobelow)
    next
      case False
      with that lh have "i = nat l" by auto
      with high(1) show ?thesis by (simp add: m)
    qed
    ultimately show ?thesis using lh by auto
  next
    case none
    have "binary_search_first search_key index text = Returns (- 1)"
      using none by (simp add: binary_search_first_def Let_def lh(1) g sl seq_def)
    moreover have "\<not> matches search_key index text i" if i: "i < length index" for i
    proof -
      consider "i < nat l" | "i = nat l" | "i = nat h" | "i > nat h" using lh by linarith
      then show ?thesis
      proof cases
        case 1 then show ?thesis by (rule nobelow)
      next
        case 2 with none(1) show ?thesis by (simp add: m)
      next
        case 3 with none(2) show ?thesis by (simp add: m)
      next
        case 4
        with i lh have "h \<noteq> int (length index) - 1" by auto
        with above none(2) have "search_key < ?T (index ! nat h)" by auto
        also have "?T (index ! nat h) \<le> ?T (index ! i)"
          using so 4 i by (intro sorted_map_nth) auto
        finally show ?thesis by (simp add: m)
      qed
    qed
    ultimately show ?thesis by auto
  qed
qed

theorem binary_search_first_correct_witness:
  "[2, 0] \<noteq> ([]::nat list) \<and> sorted (map (\<lambda>p. drop p ''b a'') [2, 0])
   \<and> (\<exists>r. binary_search_first ''b'' [2, 0] ''b a'' = Returns r \<and>
     (if \<exists>i<length [2, 0::nat]. matches ''b'' [2, 0] ''b a'' i
      then 0 \<le> r \<and> r < int (length [2, 0::nat]) \<and> matches ''b'' [2, 0] ''b a'' (nat r)
           \<and> (\<forall>i<nat r. \<not> matches ''b'' [2, 0] ''b a'' i)
      else r = - 1))"
  using binary_search_first_correct[of "[2, 0]" "''b a''" "''b''"] by simp

section \<open>The position collector\<close>

lemma isalnum_space: "\<not> isalnum (CHR '' '')"
  by (simp add: isalnum_def)

lemma collect_loop_spec:
  "rest = drop i text \<Longrightarrow> i \<le> length text \<Longrightarrow> length text \<le> 2 ^ 32 \<Longrightarrow>
   isalnum previous = (i \<noteq> 0 \<and> isalnum (text ! (i - 1))) \<Longrightarrow>
   collect_loop rest previous i index = Returns (index @ filter (word_start text) [i..<length text])"
proof (induction rest arbitrary: i previous index)
  case Nil
  then have "i = length text" by simp
  then show ?case by simp
next
  case (Cons c cs)
  from Cons.prems(1,2) have i: "i < length text" by (cases "i = length text") auto
  from Cons.prems(1) i have c: "c = text ! i" and cs: "cs = drop (Suc i) text"
    by (metis Cons_nth_drop_Suc list.inject)+
  have ws: "word_start text i \<longleftrightarrow> isalnum c \<and> \<not> isalnum previous"
    using Cons.prems(4) by (auto simp: word_start_def c)
  have upt: "[i..<length text] = i # [Suc i..<length text]" using i by (rule upt_conv_Cons)
  have ap: "builder_append index i = Returns (index @ [i])"
    using i Cons.prems(3) by (simp add: builder_append_def)
  have IH: "collect_loop cs c (Suc i) index' =
      Returns (index' @ filter (word_start text) [Suc i..<length text])" for index'
    using i Cons.prems(3) by (intro Cons.IH) (auto simp: cs c)
  show ?case
    by (simp add: upt ws ap IH seq_def)
qed

lemma filter_upt_card: "length (filter P [0..<n]) = card {i. i < n \<and> P i}"
proof -
  have "{i. i < n \<and> P ([0..<n] ! i)} = {i. i < n \<and> P i}" by auto
  then show ?thesis by (simp add: length_filter_conv_card)
qed

text \<open>
  Claim C6, amended. For a non-empty text of at most \<^verbatim>\<open>2^32\<close> bytes,
  \<^verbatim>\<open>collect_corpus_positions\<close> returns, and the index it has written holds exactly the
  offsets of the word starts of the text, in strictly ascending order; so its length is the
  number of word starts. The claim as stated, for every text, fails: an empty text file
  cannot be mapped, and a word start at an offset of \<^verbatim>\<open>2^32\<close> or more does not fit into the
  four bytes of an index entry.
\<close>

theorem collect_corpus_positions_correct:
  assumes "text \<noteq> []" and "length text \<le> 2 ^ 32"
  shows "\<exists>index. collect_corpus_positions text = Returns index
     \<and> index = filter (word_start text) [0..<length text]
     \<and> sorted_wrt (<) index
     \<and> length index = card {i. i < length text \<and> word_start text i}"
proof -
  have "collect_loop text (CHR '' '') 0 [] = Returns ([] @ filter (word_start text) [0..<length text])"
    using assms(2) by (intro collect_loop_spec) (simp_all add: isalnum_space)
  with assms(1) have "collect_corpus_positions text = Returns (filter (word_start text) [0..<length text])"
    by (simp add: collect_corpus_positions_def DiskBytesArray_def mmap_whole_file_def seq_def)
  moreover have "sorted_wrt (<) (filter (word_start text) [0..<length text])"
    by (rule sorted_wrt_filter) simp
  ultimately show ?thesis by (simp add: filter_upt_card)
qed

theorem collect_corpus_positions_correct_witness:
  "''b a'' \<noteq> [] \<and> length ''b a'' \<le> 2 ^ 32
   \<and> (\<exists>index. collect_corpus_positions ''b a'' = Returns index
     \<and> index = filter (word_start ''b a'') [0..<length ''b a'']
     \<and> sorted_wrt (<) index
     \<and> length index = card {i. i < length ''b a'' \<and> word_start ''b a'' i})"
  using collect_corpus_positions_correct[of "''b a''"] by simp

lemma collect_loop_replicate:
  "\<not> isalnum c \<Longrightarrow> \<not> isalnum previous \<Longrightarrow>
   collect_loop (replicate n c @ rest) previous i index = collect_loop rest (if n = 0 then previous else c) (i + n) index"
  by (induction n arbitrary: previous i) auto

theorem collect_corpus_positions_counterexample:
  "collect_corpus_positions [] = Raises ValueError
   \<and> collect_corpus_positions (replicate (2 ^ 32) (CHR '' '') @ ''a'') = Raises OverflowError"
proof
  show "collect_corpus_positions [] = Raises ValueError"
    by (simp add: collect_corpus_positions_def DiskBytesArray_def mmap_whole_file_def seq_def)
  have "collect_loop (replicate (2 ^ 32) (CHR '' '') @ ''a'') (CHR '' '') 0 []
      = collect_loop ''a'' (if (2::nat) ^ 32 = 0 then CHR '' '' else CHR '' '') (0 + 2 ^ 32) []"
    by (rule collect_loop_replicate) (rule isalnum_space)+
  also have "\<dots> = Raises OverflowError"
    by (simp add: isalnum_def builder_append_def seq_def)
  finally have "collect_loop (replicate (2 ^ 32) (CHR '' '') @ ''a'') (CHR '' '') 0 [] = Raises OverflowError" .
  moreover have "replicate (2 ^ 32) (CHR '' '') @ ''a'' \<noteq> []" by simp
  ultimately show "collect_corpus_positions (replicate (2 ^ 32) (CHR '' '') @ ''a'') = Raises OverflowError"
    by (simp only: collect_corpus_positions_def DiskBytesArray_def mmap_whole_file_def if_False seq_simps)
qed

section \<open>Boundary sizes\<close>

text \<open>
  Claim C5, amended. Opening the mapped byte store on a non-empty file succeeds, the position
  collector returns for a non-empty text of at most \<^verbatim>\<open>2^32\<close> bytes, and
  \<^verbatim>\<open>binary_search_first\<close> returns for every non-empty index (so for size 1), with a
  position of the index or \<^verbatim>\<open>-1\<close>. The claim as stated fails at size 0: mapping an empty
  file raises \<^verbatim>\<open>ValueError\<close>, so the build of a 0-byte text raises, and on an empty index
  \<^verbatim>\<open>binary_search_first\<close> raises \<^verbatim>\<open>IndexError\<close>.
\<close>

theorem nonempty_files_do_not_raise:
  assumes "textfile \<noteq> []" and "length textfile \<le> 2 ^ 32" and "index \<noteq> []"
  shows "DiskBytesArray textfile = Returns textfile
     \<and> (\<exists>indexfile. collect_corpus_positions textfile = Returns indexfile)
     \<and> (\<exists>r. binary_search_first search_key index text = Returns r
            \<and> - 1 \<le> r \<and> r < int (length index))"
proof (intro conjI)
  show "DiskBytesArray textfile = Returns textfile"
    using assms(1) by (simp add: DiskBytesArray_def mmap_whole_file_def)
  have "collect_loop textfile (CHR '' '') 0 [] =
      Returns ([] @ filter (word_start textfile) [0..<length textfile])"
    using assms(2) by (intro collect_loop_spec) (simp_all add: isalnum_space)
  with assms(1) show "\<exists>indexfile. collect_corpus_positions textfile = Returns indexfile"
    by (simp add: collect_corpus_positions_def DiskBytesArray_def mmap_whole_file_def seq_def)
  show "\<exists>r. binary_search_first search_key index text = Returns r
            \<and> - 1 \<le> r \<and> r < int (length index)"
    using assms(3) by (rule binary_search_first_returns)
qed

theorem nonempty_files_do_not_raise_witness:
  "''a'' \<noteq> [] \<and> length ''a'' \<le> 2 ^ 32 \<and> [0] \<noteq> ([]::nat list)
   \<and> DiskBytesArray ''a'' = Returns ''a''
   \<and> (\<exists>indexfile. collect_corpus_positions ''a'' = Returns indexfile)
   \<and> (\<exists>r. binary_search_first ''a'' [0] ''a'' = Returns r \<and> - 1 \<le> r \<and> r < int (length [0::nat]))"
  using nonempty_files_do_not_raise[of "''a''" "[0]" "''a''" "''a''"] by simp

theorem empty_files_counterexample:
  "DiskBytesArray [] = Raises ValueError
   \<and> collect_corpus_positions [] = Raises ValueError
   \<and> (\<forall>room. build_suffix_array [] 10000 room = Raises ValueError)
   \<and> binary_search_first ''a'' [] ''a'' = Raises IndexError"
  by (simp add: run cong: seq_weak_cong)

section \<open>The verifier and the cutoff\<close>

text \<open>
  Claim C1 says that \<^verbatim>\<open>test_sortedness\<close> records a violation exactly at the adjacent
  entries that are not in strictly increasing suffix order, so that a freshly built index
  passes. The code compares the first pair with \<^verbatim>\<open>left = 0\<close> in place of \<^verbatim>\<open>index[0]\<close>: for
  the text \<^verbatim>\<open>b a\<close> the collector writes the index [0, 2], the sorter leaves [2, 0], which
  is strictly sorted by suffix, and the verifier compares the suffix at 0 with the suffix at
  \<^verbatim>\<open>index[1] = 0\<close>, records a violation at position 1 and ends the build with one
  ordering error. The quicksort of this build nests three calls; the statement is for every
  call stack with room for them (\<open>room + 3\<close>).
\<close>

theorem test_sortedness_rejects_sorted_index:
  "collect_corpus_positions ''b a'' = Returns [0, 2]
   \<and> sort_suffix_array ''b a'' [0, 2] 10000 (room + 3) = Returns ([2, 0], [])
   \<and> sorted_wrt (<) (map (\<lambda>p. drop p ''b a'') [2, 0])
   \<and> sortedness_loop ''b a'' [0] 1 0 [] = Returns [(1, ''b a'', ''b a'')]
   \<and> test_sortedness ''b a'' [2, 0] = Raises (SystemExit 1)
   \<and> build_suffix_array ''b a'' 10000 (room + 3) = Raises (SystemExit 1)"
  by (simp add: run cong: seq_weak_cong after_weak_cong and_then_weak_cong)

text \<open>
  Claim C3 says that the cutoff given to the build is the threshold at which its quicksort
  hands a subrange to the built-in sort. \<^verbatim>\<open>sort_suffix_array\<close> does not pass its cutoff
  on: with the cutoff 10000 the build of the text \<^verbatim>\<open>b a\<close> partitions the subrange [0, 2)
  and makes no call of \<^verbatim>\<open>builtin_timsort\<close>, where quicksort with that cutoff hands the
  subrange over. The statement is for every call stack with room for the three nested
  calls of the build's quicksort (\<open>room + 3\<close>).
\<close>

theorem sort_suffix_array_ignores_cutoff:
  "sort_suffix_array ''b a'' [0, 2] 10000 (room + 3) = Returns ([2, 0], [])
   \<and> quicksort [0, 2] (take_prefix ''b a'') median_of_three 10000 (room + 3) = Finishes [2, 0] [(0, 2)]"
  by (simp add: run cong: seq_weak_cong after_weak_cong and_then_weak_cong)

end
